theory Spec2Isabelle
  imports Complex_Main
begin

section \<open>Errors and library functions used by the dispatcher\<close>

text \<open>
  The exceptions that the modelled code paths can raise.  \<open>OSError\<close> stands for any
  failure of \<open>os.makedirs\<close>, \<open>AttributeError\<close> for an attribute looked up on \<open>None\<close>,
  \<open>IndexError\<close> for an array index out of bounds.
\<close>

datatype error = TypeError | ValueError | SystemError | AttributeError | IndexError | OSError

text \<open>
  Python's slice \<open>xs[st:en]\<close> for non-negative bounds: out-of-range bounds are clipped,
  and an empty list results when \<open>en \<le> st\<close>.
\<close>

definition py_slice :: "'a list \<Rightarrow> nat \<Rightarrow> nat \<Rightarrow> 'a list" where
  "py_slice xs st en = take (en - st) (drop st xs)"

text \<open>
  \<open>numpy.array_split(ary, Nsections)\<close> for an integer number of sections, as the library
  computes it:
  \<^verbatim>\<open>
    if Nsections <= 0: raise ValueError('number sections must be larger than 0.')
    Neach_section, extras = divmod(Ntotal, Nsections)
    section_sizes = [0] + extras * [Neach_section+1] + (Nsections-extras) * [Neach_section]
    div_points = array(section_sizes).cumsum()
    for i in range(Nsections): sub_arys.append(sary[div_points[i]:div_points[i + 1]])
  \<close>
\<close>

definition section_sizes :: "nat \<Rightarrow> nat \<Rightarrow> nat list" where
  "section_sizes Ntotal Nsections =
     (let Neach_section = Ntotal div Nsections; extras = Ntotal mod Nsections
      in 0 # replicate extras (Neach_section + 1) @ replicate (Nsections - extras) Neach_section)"

fun cumsum_from :: "nat \<Rightarrow> nat list \<Rightarrow> nat list" where
  "cumsum_from acc [] = []"
| "cumsum_from acc (x # xs) = (acc + x) # cumsum_from (acc + x) xs"

definition cumsum :: "nat list \<Rightarrow> nat list" where
  "cumsum xs = cumsum_from 0 xs"

definition array_split :: "'a list \<Rightarrow> int \<Rightarrow> error + 'a list list" where
  "array_split ary indices_or_sections =
     (if indices_or_sections \<le> 0 then Inl ValueError
      else
        let Nsections = nat indices_or_sections;
            div_points = cumsum (section_sizes (length ary) Nsections)
        in Inr (map (\<lambda>i. py_slice ary (div_points ! i) (div_points ! (i + 1))) [0..<Nsections]))"


section \<open>File names\<close>

text \<open>
  \<open>os.path.join(a, b)\<close> for two components, with \<open>/\<close> as the separator
  (\<open>posixpath.join\<close>): an absolute second component replaces the first, and no separator
  is inserted after an empty first component or one that already ends with the separator.
\<close>

definition os_path_join :: "string \<Rightarrow> string \<Rightarrow> string" where
  "os_path_join a b =
     (if b \<noteq> [] \<and> hd b = CHR ''/'' then b
      else if a = [] \<or> last a = CHR ''/'' then a @ b
      else a @ ''/'' @ b)"

definition digit_char :: "nat \<Rightarrow> char" where
  "digit_char d = char_of (48 + d)"

fun digits :: "nat \<Rightarrow> string" where
  "digits k = (if k < 10 then [digit_char k] else digits (k div 10) @ [digit_char (k mod 10)])"

declare digits.simps [simp del]

definition zfill :: "nat \<Rightarrow> string \<Rightarrow> string" where
  "zfill width s = replicate (width - length s) CHR ''0'' @ s"

text \<open>
  The format specification \<open>06d\<close>: decimal, padded with zeros to a width of at least six
  characters; the sign of a negative number counts towards the width and comes first.
\<close>

definition fmt_06d :: "int \<Rightarrow> string" where
  "fmt_06d i = (if i < 0 then CHR ''-'' # zfill 5 (digits (nat (- i))) else zfill 6 (digits (nat i)))"

text \<open>
  The path expression \<^verbatim>\<open>os.path.join(self.image_folder, f'frame_{i:06d}.png')\<close>, which
  \<open>generate_images\<close> and \<open>make_movie\<close> both evaluate.
\<close>

definition frame_path :: "string \<Rightarrow> int \<Rightarrow> string" where
  "frame_path image_folder i = os_path_join image_folder (''frame_'' @ fmt_06d i @ ''.png'')"

text \<open>The value of a string of decimal digits, to read a formatted index back.\<close>

definition digit_value :: "char \<Rightarrow> nat" where
  "digit_value c = of_char c - 48"

definition decimal_value :: "string \<Rightarrow> nat" where
  "decimal_value s = foldl (\<lambda>acc c. 10 * acc + digit_value c) 0 s"

definition is_digit :: "char \<Rightarrow> bool" where
  "is_digit c = (48 \<le> (of_char c :: nat) \<and> (of_char c :: nat) \<le> 57)"

section \<open>Data model\<close>

text \<open>
  The trajectory of an MDAnalysis universe: a sequence of frames, each holding one
  coordinate triple per atom.  The type \<open>'c\<close> of a triple is left open; the arithmetic on it
  (\<open>numpy.mean\<close>) is a parameter of the smoothing functions.

  Two properties of the trajectory reader decide what smoothing does.  \<open>in_memory\<close>: the
  reader keeps all coordinates in memory, so that an assignment to \<open>ts.positions\<close> changes
  the frame for good; a reader that is backed by a file fills one buffer from the file at
  every step of an iteration and reads the first frame again when the iteration ends, so
  that the assignment is lost.  \<open>ts_order\<close>: the order of the axes of the array that
  \<open>timeseries()\<close> returns when called without arguments, atoms first (shape atoms, frames,
  3) or frames first (shape frames, atoms, 3).
\<close>

datatype layout = AtomsFirst | FramesFirst

record 'c universe =
  n_atoms :: nat
  trajectory :: "'c list list"
  in_memory :: bool
  ts_order :: layout

definition wf_universe :: "'c universe \<Rightarrow> bool" where
  "wf_universe U = list_all (\<lambda>ts. length ts = n_atoms U) (trajectory U)"

text \<open>
  \<open>trajectory.timeseries()\<close>, as the list of its rows along axis 0, and the size of its
  axis 1.  The source indexes the array as if atoms came first (\<open>[:, i, :]\<close> is meant to
  select frame \<open>i\<close>).
\<close>

definition timeseries :: "'c universe \<Rightarrow> 'c list list" where
  "timeseries U =
     (case ts_order U of
        AtomsFirst \<Rightarrow> map (\<lambda>a. map (\<lambda>ts. ts ! a) (trajectory U)) [0..<n_atoms U]
      | FramesFirst \<Rightarrow> trajectory U)"

definition timeseries_axis1 :: "'c universe \<Rightarrow> nat" where
  "timeseries_axis1 U =
     (case ts_order U of AtomsFirst \<Rightarrow> length (trajectory U) | FramesFirst \<Rightarrow> n_atoms U)"

datatype 'r representation = Rep 'r | BallAndStick string

record 'r view =
  representations :: "'r representation list"
  frame :: int
  closed :: bool

text \<open>
  The progress bar: \<open>pb_total\<close> and \<open>pb_n\<close> are tqdm's \<open>total\<close> and \<open>n\<close>, \<open>pb_disable\<close>
  its \<open>disable\<close> flag, which \<open>close()\<close> sets and \<open>update()\<close> tests.
\<close>

record progress =
  pb_total :: nat
  pb_n :: nat
  pb_disable :: bool

datatype thread_status = NotStarted | Running | Finished | Failed

text \<open>
  A worker thread: \<open>view_ix\<close> and \<open>subset_indices\<close> are the arguments it was created with
  (the view is named by its position in \<open>self.views\<close>), \<open>todo\<close> the part of the bucket its
  loop has not reached yet, \<open>async_exc\<close> whether an asynchronous exception is pending in it.
\<close>

record thread =
  ident :: "nat option"
  view_ix :: nat
  subset_indices :: "int list"
  todo :: "int list"
  status :: thread_status
  async_exc :: bool

text \<open>The effects on the outside world, in the order in which they happen.\<close>

datatype event =
    MakeDirs string
  | ShowView nat
  | Display nat
  | ProgressOpen nat
  | ThreadStart nat
  | SaveImage string
  | ProgressUpdate
  | ProgressClose
  | ViewClose nat
  | WriteVideo "string list" nat string string

record ('c, 'r) generator =
  traj :: "'c universe"
  smoothing_window :: int
  image_folder :: string
  indices :: "int list"
  views :: "'r view list"
  progress_bar :: "progress option"
  num_views :: int
  rep_args :: "'r list option"
  selection :: "string option"
  threads :: "thread list"
  events :: "event list"


section \<open>Smoothing\<close>

text \<open>
  The bounds \<open>start\<close> and \<open>end\<close> that \<open>get_smooth_positions\<close> computes for frame \<open>i\<close>
  of \<open>T\<close> frames:
  \<^verbatim>\<open>
    start = max(0, i - self.smoothing_window // 2)
    end = min(len(self.traj.trajectory), i + self.smoothing_window // 2 + 1)
  \<close>
\<close>

definition window :: "int \<Rightarrow> nat \<Rightarrow> nat \<Rightarrow> nat \<times> nat" where
  "window w T i =
     (nat (max 0 (int i - w div 2)), nat (min (int T) (int i + w div 2 + 1)))"

definition zeros_like :: "'c list list \<Rightarrow> ('c::zero) list list" where
  "zeros_like arr = map (map (\<lambda>_. 0)) arr"

text \<open>\<open>arr[:, st:en, :]\<close>, \<open>np.mean(block, axis=1)\<close> and the assignment \<open>arr[:, i, :] = col\<close>.\<close>

definition slice_axis1 :: "'c list list \<Rightarrow> nat \<Rightarrow> nat \<Rightarrow> 'c list list" where
  "slice_axis1 arr st en = map (\<lambda>row. py_slice row st en) arr"

definition mean_axis1 :: "('c list \<Rightarrow> 'c) \<Rightarrow> 'c list list \<Rightarrow> 'c list" where
  "mean_axis1 mean block = map mean block"

definition assign_axis1 :: "'c list list \<Rightarrow> nat \<Rightarrow> 'c list \<Rightarrow> 'c list list" where
  "assign_axis1 arr i col = map (\<lambda>(row, v). row[i := v]) (zip arr col)"

definition index_axis1 :: "'c list list \<Rightarrow> nat \<Rightarrow> 'c list" where
  "index_axis1 arr i = map (\<lambda>row. row ! i) arr"

text \<open>
  \<open>get_smooth_positions\<close>: the loop over \<open>range(len(self.traj.trajectory))\<close> fills the zero
  array column by column; \<open>smooth_columns\<close> is the loop.  The assignment to column \<open>i\<close>
  raises \<open>IndexError\<close> when \<open>i\<close> is not below the size of axis 1.  The source reads
  \<open>timeseries()\<close> anew in every iteration; nothing changes it in between.
\<close>

fun smooth_columns ::
    "('c list \<Rightarrow> 'c) \<Rightarrow> int \<Rightarrow> nat \<Rightarrow> nat \<Rightarrow> 'c list list \<Rightarrow> nat list \<Rightarrow> 'c list list \<Rightarrow>
     error + 'c list list" where
  "smooth_columns mean w T size1 ts [] smoothed_positions = Inr smoothed_positions"
| "smooth_columns mean w T size1 ts (i # rest) smoothed_positions =
     (let (st, en) = window w T i;
          column = mean_axis1 mean (slice_axis1 ts st en)
      in if i < size1
         then smooth_columns mean w T size1 ts rest (assign_axis1 smoothed_positions i column)
         else Inl IndexError)"

definition get_smooth_positions ::
    "('c list \<Rightarrow> 'c) \<Rightarrow> ('c::zero, 'r) generator \<Rightarrow> error + 'c list list" where
  "get_smooth_positions mean self =
     (let ts = timeseries (traj self); T = length (trajectory (traj self))
      in smooth_columns mean (smoothing_window self) T (timeseries_axis1 (traj self)) ts
           [0..<T] (zeros_like ts))"

text \<open>
  The setter of \<open>ts.positions\<close> copies the new array into the frame's array of \<open>n_atoms\<close>
  rows (\<open>self._pos[:] = new\<close>): an array of as many rows is copied, an array of one row is
  repeated for every atom, and any other raises \<open>ValueError\<close>.
\<close>

definition set_positions :: "nat \<Rightarrow> 'c list \<Rightarrow> error + 'c list" where
  "set_positions A new =
     (if length new = A then Inr new
      else if length new = 1 then Inr (replicate A (hd new))
      else Inl ValueError)"

text \<open>
  \<open>smooth_trajectory\<close>: the loop over \<open>enumerate(self.traj.trajectory)\<close> assigns to every
  frame the frame's column of the smoothed array; \<open>assign_positions\<close> is the loop.  What
  it has assigned stays when the trajectory is in memory, and is lost otherwise.
\<close>

fun assign_positions ::
    "nat \<Rightarrow> nat \<Rightarrow> 'c list list \<Rightarrow> nat list \<Rightarrow> 'c list list \<Rightarrow> error + 'c list list" where
  "assign_positions size1 A smoothed_positions [] frames = Inr frames"
| "assign_positions size1 A smoothed_positions (i # rest) frames =
     (if i < size1
      then (case set_positions A (index_axis1 smoothed_positions i) of
              Inl e \<Rightarrow> Inl e
            | Inr positions \<Rightarrow>
                assign_positions size1 A smoothed_positions rest (frames[i := positions]))
      else Inl IndexError)"

definition smooth_trajectory ::
    "('c list \<Rightarrow> 'c) \<Rightarrow> ('c::zero, 'r) generator \<Rightarrow> error + ('c, 'r) generator" where
  "smooth_trajectory mean self =
     (case get_smooth_positions mean self of
        Inl e \<Rightarrow> Inl e
      | Inr smoothed_positions \<Rightarrow>
          (case assign_positions (timeseries_axis1 (traj self)) (n_atoms (traj self))
                  smoothed_positions [0..<length (trajectory (traj self))]
                  (trajectory (traj self)) of
             Inl e \<Rightarrow> Inl e
           | Inr frames \<Rightarrow>
               Inr (if in_memory (traj self)
                    then self\<lparr>traj := (traj self)\<lparr>trajectory := frames\<rparr>\<rparr>
                    else self)))"

text \<open>
  The mean of the position arrays of the frames \<open>lo, \<dots>, hi - 1\<close> of a trajectory, atom
  by atom: what the specification calls the mean over a window of frames.
\<close>

definition mean_over_frames :: "('c list \<Rightarrow> 'c) \<Rightarrow> 'c universe \<Rightarrow> nat \<Rightarrow> nat \<Rightarrow> 'c list" where
  "mean_over_frames mean U lo hi =
     map (\<lambda>a. mean (map (\<lambda>f. trajectory U ! f ! a) [lo..<hi])) [0..<n_atoms U]"

section \<open>Construction\<close>

text \<open>
  \<open>create_views\<close>: one view per element of \<open>range(self.num_views)\<close>, each with the
  representations of \<open>rep_args\<close> followed by the ball-and-stick selection; \<open>create_view\<close>
  is the body of its loop.  The layout,
  resize, centre and zoom calls act on the widget only and are not kept.
\<close>

definition new_view :: "('c, 'r) generator \<Rightarrow> 'r view" where
  "new_view self =
     \<lparr>representations =
        (case rep_args self of None \<Rightarrow> [] | Some ras \<Rightarrow> map Rep ras) @
        (case selection self of
           None \<Rightarrow> [BallAndStick ''protein'', BallAndStick ''nucleic'']
         | Some sel \<Rightarrow> [BallAndStick sel]),
      frame = 0, closed = False\<rparr>"

definition create_view :: "nat \<Rightarrow> ('c, 'r) generator \<Rightarrow> ('c, 'r) generator" where
  "create_view i self =
     self\<lparr>views := views self @ [new_view self], events := events self @ [ShowView i, Display i]\<rparr>"

definition create_views :: "('c, 'r) generator \<Rightarrow> ('c, 'r) generator" where
  "create_views self = fold create_view [0..<nat (num_views self)] self"

text \<open>
  \<open>__init__\<close>: the attributes are set (\<open>new_generator\<close>), the trajectory is smoothed when
  the window is above 1, the folder is created, and the views are created.  An exception
  of the smoothing step ends the construction.  Whether
  \<open>os.makedirs(image_folder, exist_ok=True)\<close> succeeds is a matter of the file system,
  here the parameter \<open>makedirs_ok\<close>.
\<close>

definition new_generator ::
    "'c universe \<Rightarrow> string \<Rightarrow> int list \<Rightarrow> int \<Rightarrow> int \<Rightarrow> 'r list option \<Rightarrow> string option \<Rightarrow>
     ('c, 'r) generator" where
  "new_generator traj0 image_folder0 indices0 smoothing_window0 num_views0 rep_args0 selection0 =
     \<lparr>traj = traj0, smoothing_window = smoothing_window0, image_folder = image_folder0,
      indices = indices0, views = [], progress_bar = None, num_views = num_views0,
      rep_args = rep_args0, selection = selection0, threads = [], events = []\<rparr>"

definition init ::
    "(string \<Rightarrow> bool) \<Rightarrow> ('c list \<Rightarrow> 'c) \<Rightarrow> ('c::zero) universe \<Rightarrow> string \<Rightarrow> int list \<Rightarrow> int \<Rightarrow> int \<Rightarrow>
     'r list option \<Rightarrow> string option \<Rightarrow> error + ('c, 'r) generator" where
  "init makedirs_ok mean traj0 image_folder0 indices0 smoothing_window0 num_views0 rep_args0 selection0 =
     (let self = new_generator traj0 image_folder0 indices0 smoothing_window0 num_views0
                   rep_args0 selection0
      in case (if smoothing_window self > 1 then smooth_trajectory mean self else Inr self) of
           Inl e \<Rightarrow> Inl e
         | Inr self \<Rightarrow>
             if \<not> makedirs_ok (image_folder self) then Inl OSError
             else Inr (create_views (self\<lparr>events := events self @ [MakeDirs (image_folder self)]\<rparr>)))"

section \<open>Rendering and dispatch\<close>

text \<open>
  \<open>tqdm.update(1)\<close>: a bar that has been closed is disabled and ignores the update.
\<close>

definition pb_update :: "progress \<Rightarrow> progress" where
  "pb_update p = (if pb_disable p then p else p\<lparr>pb_n := pb_n p + 1\<rparr>)"

definition pb_close :: "progress \<Rightarrow> progress" where
  "pb_close p = p\<lparr>pb_disable := True\<rparr>"

text \<open>
  One iteration of the loop of \<open>generate_images\<close> for the view at position \<open>v\<close> and the
  index \<open>i\<close>, when rendering and writing succeed: the view is pointed at the frame, the
  image is saved under the frame's path, and the progress bar is updated.  The attribute
  \<open>self.progress_bar\<close> is read at the time of the update.
\<close>

definition generate_image :: "('c, 'r) generator \<Rightarrow> nat \<Rightarrow> int \<Rightarrow> error + ('c, 'r) generator" where
  "generate_image self v i =
     (let img_path = frame_path (image_folder self) i;
          self = self\<lparr>views := (views self)[v := (views self ! v)\<lparr>frame := i\<rparr>],
                      events := events self @ [SaveImage img_path]\<rparr>
      in case progress_bar self of
           None \<Rightarrow> Inl AttributeError
         | Some p \<Rightarrow> Inr (self\<lparr>progress_bar := Some (pb_update p),
                               events := events self @ [ProgressUpdate]\<rparr>))"

fun generate_images :: "('c, 'r) generator \<Rightarrow> nat \<Rightarrow> int list \<Rightarrow> error + ('c, 'r) generator" where
  "generate_images self v [] = Inr self"
| "generate_images self v (i # rest) =
     (case generate_image self v i of
        Inl e \<Rightarrow> Inl e
      | Inr self' \<Rightarrow> generate_images self' v rest)"

text \<open>
  \<open>run\<close>: the indices are split into as many buckets as there are views, a fresh progress
  bar is opened, and one thread per pair of view and bucket is registered and started.
\<close>

definition start_thread :: "nat \<times> int list \<Rightarrow> ('c, 'r) generator \<Rightarrow> ('c, 'r) generator" where
  "start_thread vb self =
     (let tid = Suc (length (threads self));
          thread = \<lparr>ident = Some tid, view_ix = fst vb, subset_indices = snd vb, todo = snd vb,
                    status = Running, async_exc = False\<rparr>
      in self\<lparr>threads := threads self @ [thread], events := events self @ [ThreadStart tid]\<rparr>)"

definition run :: "('c, 'r) generator \<Rightarrow> error + ('c, 'r) generator" where
  "run self =
     (case array_split (indices self) (int (length (views self))) of
        Inl e \<Rightarrow> Inl e
      | Inr indices_split \<Rightarrow>
          let self = self\<lparr>progress_bar :=
                            Some \<lparr>pb_total = length (indices self), pb_n = 0, pb_disable = False\<rparr>,
                          events := events self @ [ProgressOpen (length (indices self))]\<rparr>
          in Inr (fold start_thread (zip [0..<length (views self)] indices_split) self))"

text \<open>
  The workers run concurrently.  A step of the system is a step of one running worker:
  it completes the next iteration of its loop, or it leaves the loop at the end of its
  bucket, or it dies of an exception raised while rendering or writing.  An iteration,
  with its save and its update of the progress bar, is one indivisible step.  A worker
  that waits for an image that never arrives takes no step.
\<close>

inductive worker_step :: "('c, 'r) generator \<Rightarrow> ('c, 'r) generator \<Rightarrow> bool" where
  frame_done:
    "k < length (threads s) \<Longrightarrow> status (threads s ! k) = Running \<Longrightarrow>
     todo (threads s ! k) = i # rest \<Longrightarrow>
     generate_image s (view_ix (threads s ! k)) i = Inr s' \<Longrightarrow>
     worker_step s (s'\<lparr>threads := (threads s')[k := (threads s' ! k)\<lparr>todo := rest\<rparr>]\<rparr>)"
| bucket_done:
    "k < length (threads s) \<Longrightarrow> status (threads s ! k) = Running \<Longrightarrow>
     todo (threads s ! k) = [] \<Longrightarrow>
     worker_step s (s\<lparr>threads := (threads s)[k := (threads s ! k)\<lparr>status := Finished\<rparr>]\<rparr>)"
| worker_died:
    "k < length (threads s) \<Longrightarrow> status (threads s ! k) = Running \<Longrightarrow>
     todo (threads s ! k) = i # rest \<Longrightarrow>
     worker_step s (s\<lparr>threads := (threads s)[k := (threads s ! k)\<lparr>status := Failed\<rparr>]\<rparr>)"

definition counter :: "('c, 'r) generator \<Rightarrow> nat" where
  "counter s = (case progress_bar s of None \<Rightarrow> 0 | Some p \<Rightarrow> pb_n p)"


section \<open>Forced stop and teardown\<close>

text \<open>
  \<open>_async_raise(tid, exctype)\<close>.  \<open>ctypes.c_long(tid)\<close> raises \<open>TypeError\<close> when \<open>tid\<close> is
  \<open>None\<close>, the identifier of a thread that was never started.
  \<open>PyThreadState_SetAsyncExc\<close> sets the exception in every thread state with that
  identifier and returns how many it found; a thread that has ended has no thread state.
  When the count is neither 0 nor 1 the source clears the exception again.
\<close>

definition async_raise :: "('c, 'r) generator \<Rightarrow> nat option \<Rightarrow> error + ('c, 'r) generator" where
  "async_raise self tid =
     (case tid of
        None \<Rightarrow> Inl TypeError
      | Some k \<Rightarrow>
          let res = length (filter (\<lambda>t. ident t = Some k \<and> status t = Running) (threads self))
          in if res = 0 then Inl ValueError
             else if res \<noteq> 1 then Inl SystemError
             else Inr (self\<lparr>threads :=
                    map (\<lambda>t. if ident t = Some k \<and> status t = Running then t\<lparr>async_exc := True\<rparr> else t)
                        (threads self)\<rparr>))"

text \<open>
  \<open>_stop_thread\<close> is declared \<^verbatim>\<open>@staticmethod def _stop_thread(self, thread)\<close>: a static
  method receives exactly the arguments of the call, with no instance bound in front, and
  a call with another number of arguments than the two parameters raises \<open>TypeError\<close>
  before the body runs.  The model takes the list of arguments of the call.
\<close>

datatype pyarg = ArgSelf | ArgThread thread

fun stop_thread :: "('c, 'r) generator \<Rightarrow> pyarg list \<Rightarrow> error + ('c, 'r) generator" where
  "stop_thread g [ArgSelf, ArgThread thread] = async_raise g (ident thread)"
| "stop_thread g [_, _] = Inl AttributeError"
| "stop_thread g _ = Inl TypeError"

text \<open>
  The last loop of \<open>cleanup\<close>:
  \<^verbatim>\<open>
    for thread in self.threads:
        try:
            self._stop_thread(thread)
        except TypeError:
            continue
  \<close>
  The call passes the thread alone.  \<open>stop_one\<close> is the body of the loop for one thread.
\<close>

definition stop_one :: "('c, 'r) generator \<Rightarrow> thread \<Rightarrow> error + ('c, 'r) generator" where
  "stop_one self thread =
     (case stop_thread self [ArgThread thread] of
        Inl e \<Rightarrow> if e = TypeError then Inr self else Inl e
      | Inr self' \<Rightarrow> Inr self')"

fun stop_threads :: "('c, 'r) generator \<Rightarrow> thread list \<Rightarrow> error + ('c, 'r) generator" where
  "stop_threads self [] = Inr self"
| "stop_threads self (thread # rest) =
     (case stop_one self thread of
        Inl e \<Rightarrow> Inl e
      | Inr self' \<Rightarrow> stop_threads self' rest)"

text \<open>
  The test \<^verbatim>\<open>if self.progress_bar:\<close> is a truth test: \<open>None\<close> is false, and a tqdm bar
  with a known total is true when the total is positive (its \<open>__bool__\<close>).
\<close>

definition pb_bool :: "progress option \<Rightarrow> bool" where
  "pb_bool pb = (case pb of None \<Rightarrow> False | Some p \<Rightarrow> 0 < pb_total p)"

definition close_progress :: "('c, 'r) generator \<Rightarrow> ('c, 'r) generator" where
  "close_progress self =
     (if pb_bool (progress_bar self)
      then self\<lparr>progress_bar := map_option pb_close (progress_bar self),
                events := events self @ [ProgressClose]\<rparr>
      else self)"

definition close_views :: "('c, 'r) generator \<Rightarrow> ('c, 'r) generator" where
  "close_views self =
     fold (\<lambda>v s. s\<lparr>views := (views s)[v := (views s ! v)\<lparr>closed := True\<rparr>],
                   events := events s @ [ViewClose v]\<rparr>)
          [0..<length (views self)] self"

definition cleanup :: "('c, 'r) generator \<Rightarrow> error + ('c, 'r) generator" where
  "cleanup self =
     (let self = close_progress self;
          self = close_views self
      in stop_threads self (threads self))"

section \<open>Movie assembly\<close>

text \<open>
  \<open>make_movie\<close>: the list of image files is computed from \<open>self.indices\<close> and handed to
  the encoder with the frame rate, the output file and the codec.  What the encoder does
  with the files is outside the program.
\<close>

definition image_files :: "('c, 'r) generator \<Rightarrow> string list" where
  "image_files self = map (\<lambda>i. frame_path (image_folder self) i) (indices self)"

definition make_movie :: "('c, 'r) generator \<Rightarrow> string \<Rightarrow> nat \<Rightarrow> ('c, 'r) generator" where
  "make_movie self output_file fps =
     self\<lparr>events := events self @ [WriteVideo (image_files self) fps output_file ''libx264'']\<rparr>"


section \<open>Auxiliary notions and example inputs\<close>

text \<open>The cut points of \<open>array_split\<close> in closed form.\<close>

definition div_point :: "nat \<Rightarrow> nat \<Rightarrow> nat \<Rightarrow> nat" where
  "div_point Ntotal Nsections i = i * (Ntotal div Nsections) + min i (Ntotal mod Nsections)"

text \<open>The buckets of the threads that a call of \<open>run\<close> on \<open>s\<close> has added in \<open>s'\<close>.\<close>

definition new_threads :: "('c, 'r) generator \<Rightarrow> ('c, 'r) generator \<Rightarrow> thread list" where
  "new_threads s s' = drop (length (threads s)) (threads s')"

text \<open>
  The arithmetic mean over the rationals, and a small in-memory trajectory of four frames
  of two atoms, with one rational number for a coordinate triple, for examples.
\<close>

definition avg :: "rat list \<Rightarrow> rat" where
  "avg xs = sum_list xs / of_nat (length xs)"

definition demo_traj :: "rat universe" where
  "demo_traj = \<lparr>n_atoms = 2, trajectory = [[0, 10], [6, 40], [3, 10], [9, 20]],
                 in_memory = True, ts_order = AtomsFirst\<rparr>"

definition demo_view :: "string view" where
  "demo_view = \<lparr>representations = [BallAndStick ''protein'', BallAndStick ''nucleic''],
                 frame = 0, closed = False\<rparr>"

text \<open>
  The generator constructed from \<open>demo_traj\<close> with the indices \<open>0, 2, \<dots>, 10\<close>, smoothing
  window 1 and three views, and the same generator after \<open>run\<close>.
\<close>

definition demo_gen :: "(rat, string) generator" where
  "demo_gen =
     \<lparr>traj = demo_traj, smoothing_window = 1, image_folder = ''out'',
      indices = [0, 2, 4, 6, 8, 10], views = [demo_view, demo_view, demo_view],
      progress_bar = None, num_views = 3, rep_args = None, selection = None, threads = [],
      events = [MakeDirs ''out'', ShowView 0, Display 0, ShowView 1, Display 1,
                ShowView 2, Display 2]\<rparr>"

definition demo_thread :: "nat \<Rightarrow> nat \<Rightarrow> int list \<Rightarrow> thread" where
  "demo_thread tid v bucket =
     \<lparr>ident = Some tid, view_ix = v, subset_indices = bucket, todo = bucket,
      status = Running, async_exc = False\<rparr>"

definition demo_running :: "(rat, string) generator" where
  "demo_running =
     demo_gen\<lparr>progress_bar := Some \<lparr>pb_total = 6, pb_n = 0, pb_disable = False\<rparr>,
              threads := [demo_thread 1 0 [0, 2], demo_thread 2 1 [4, 6], demo_thread 3 2 [8, 10]],
              events := events demo_gen @ [ProgressOpen 6, ThreadStart 1, ThreadStart 2, ThreadStart 3]\<rparr>"


text \<open>
  A scheduler's view of the step relation: \<open>worker_next s k\<close> is the state after the next
  step of worker \<open>k\<close> with successful rendering, and \<open>schedule\<close> runs a sequence of such
  steps.
\<close>

definition worker_next :: "('c, 'r) generator \<Rightarrow> nat \<Rightarrow> ('c, 'r) generator option" where
  "worker_next s k =
     (if k < length (threads s) \<and> status (threads s ! k) = Running
      then (case todo (threads s ! k) of
              [] \<Rightarrow> Some (s\<lparr>threads := (threads s)[k := (threads s ! k)\<lparr>status := Finished\<rparr>]\<rparr>)
            | i # rest \<Rightarrow>
                (case generate_image s (view_ix (threads s ! k)) i of
                   Inl e \<Rightarrow> None
                 | Inr s' \<Rightarrow> Some (s'\<lparr>threads := (threads s')[k := (threads s' ! k)\<lparr>todo := rest\<rparr>]\<rparr>)))
      else None)"

fun schedule :: "('c, 'r) generator \<Rightarrow> nat list \<Rightarrow> ('c, 'r) generator option" where
  "schedule s [] = Some s"
| "schedule s (k # ks) = (case worker_next s k of None \<Rightarrow> None | Some s' \<Rightarrow> schedule s' ks)"

text \<open>The example generator after all three workers have completed their buckets.\<close>

definition demo_finished :: "nat \<Rightarrow> nat \<Rightarrow> int list \<Rightarrow> thread" where
  "demo_finished tid v bucket = (demo_thread tid v bucket)\<lparr>todo := [], status := Finished\<rparr>"

definition demo_done :: "(rat, string) generator" where
  "demo_done =
     demo_running\<lparr>
       views := [demo_view\<lparr>frame := 2\<rparr>, demo_view\<lparr>frame := 6\<rparr>, demo_view\<lparr>frame := 10\<rparr>],
       progress_bar := Some \<lparr>pb_total = 6, pb_n = 6, pb_disable = False\<rparr>,
       threads := [demo_finished 1 0 [0, 2], demo_finished 2 1 [4, 6], demo_finished 3 2 [8, 10]],
       events := events demo_running @
         [SaveImage ''out/frame_000000.png'', ProgressUpdate,
          SaveImage ''out/frame_000002.png'', ProgressUpdate,
          SaveImage ''out/frame_000004.png'', ProgressUpdate,
          SaveImage ''out/frame_000006.png'', ProgressUpdate,
          SaveImage ''out/frame_000008.png'', ProgressUpdate,
          SaveImage ''out/frame_000010.png'', ProgressUpdate]\<rparr>"

text \<open>
  The number of loop iterations that the registered workers have still to do, and the
  relation between it and the progress counter that holds from dispatch on.
\<close>

definition pending :: "('c, 'r) generator \<Rightarrow> nat" where
  "pending s = sum_list (map (\<lambda>t. length (todo t)) (threads s))"

definition progress_inv :: "('c, 'r) generator \<Rightarrow> bool" where
  "progress_inv s =
     ((case progress_bar s of
         None \<Rightarrow> False
       | Some p \<Rightarrow> \<not> pb_disable p \<and> pb_n p + pending s = length (indices s)) \<and>
      list_all (\<lambda>t. status t = Finished \<longrightarrow> todo t = []) (threads s))"

text \<open>The number of directory creations in a sequence of events.\<close>

fun is_makedirs :: "event \<Rightarrow> bool" where
  "is_makedirs (MakeDirs _) = True"
| "is_makedirs _ = False"

definition makedirs_count :: "event list \<Rightarrow> nat" where
  "makedirs_count evs = length (filter is_makedirs evs)"

text \<open>The events that a call of \<open>run\<close> on \<open>s\<close> adds; none when the call raises.\<close>

definition dispatch_events :: "('c, 'r) generator \<Rightarrow> event list" where
  "dispatch_events s =
     (case run s of Inl e \<Rightarrow> [] | Inr s' \<Rightarrow> drop (length (events s)) (events s'))"

text \<open>The example generator constructed with \<open>num_views = 0\<close>.\<close>

definition demo_noviews :: "(rat, string) generator" where
  "demo_noviews = demo_gen\<lparr>views := [], num_views := 0, events := [MakeDirs ''out'']\<rparr>"

text \<open>
  The generator as \<open>__init__\<close> holds it when it calls \<open>smooth_trajectory\<close>, for the example
  trajectory and a given smoothing window.
\<close>

definition demo_unsmoothed :: "int \<Rightarrow> (rat, string) generator" where
  "demo_unsmoothed w = new_generator demo_traj ''out'' [0, 2, 4, 6, 8, 10] w 3 None None"

text \<open>
  The same with the frames of the example trajectory served by a reader that is backed
  by a file, with the time series atoms first and frames first.
\<close>

definition demo_file_backed :: "int \<Rightarrow> (rat, string) generator" where
  "demo_file_backed w =
     new_generator (demo_traj\<lparr>in_memory := False\<rparr>) ''out'' [0, 2, 4, 6, 8, 10] w 3 None None"

definition demo_frames_first :: "int \<Rightarrow> (rat, string) generator" where
  "demo_frames_first w =
     new_generator (demo_traj\<lparr>in_memory := False, ts_order := FramesFirst\<rparr>) ''out''
       [0, 2, 4, 6, 8, 10] w 3 None None"

text \<open>
  A sequence of worker steps after a call of \<open>run\<close> or \<open>cleanup\<close>, whose result is the
  first argument; nothing when the call raised.
\<close>

definition then_schedule :: "error + ('c, 'r) generator \<Rightarrow> nat list \<Rightarrow> ('c, 'r) generator option" where
  "then_schedule r ks = (case r of Inl e \<Rightarrow> None | Inr s \<Rightarrow> schedule s ks)"

text \<open>The frames that a call of \<open>smooth_trajectory\<close> leaves; nothing when it raised.\<close>

definition smoothed_frames :: "error + ('c, 'r) generator \<Rightarrow> 'c list list option" where
  "smoothed_frames r = (case r of Inl e \<Rightarrow> None | Inr g \<Rightarrow> Some (trajectory (traj g)))"

section \<open>The partition computed at dispatch\<close>


lemma demo_init:
  "init (\<lambda>_. True) avg demo_traj ''out'' [0, 2, 4, 6, 8, 10] 1 3 None None = Inr demo_gen"
  by code_simp

lemma demo_run: "run demo_gen = Inr demo_running"
  by code_simp

lemma cumsum_from_nth:
  "i < length xs \<Longrightarrow> cumsum_from a xs ! i = a + sum_list (take (Suc i) xs)"
proof (induction xs arbitrary: a i)
  case Nil then show ?case by simp
next
  case (Cons x xs)
  then show ?case by (cases i) auto
qed

lemma sum_take_sizes:
  assumes "r \<le> N" "i \<le> N"
  shows "sum_list (take i (replicate r (Suc q) @ replicate (N - r) q)) = i * q + min i r"
proof (cases "i \<le> r")
  case True
  then show ?thesis by (simp add: sum_list_replicate min_def)
next
  case False
  with assms have "min (i - r) (N - r) = i - r" "min i r = r" by auto
  with False show ?thesis
    by (simp add: sum_list_replicate min_def algebra_simps)
qed

lemma div_points_nth:
  assumes "0 < N" "i \<le> N"
  shows "cumsum (section_sizes L N) ! i = div_point L N i"
proof -
  have r: "L mod N \<le> N" using assms by simp
  have len: "i < length (section_sizes L N)" using assms r by (simp add: section_sizes_def Let_def)
  show ?thesis
    unfolding cumsum_def cumsum_from_nth[OF len]
    using sum_take_sizes[OF r assms(2), of "L div N"]
    by (simp add: section_sizes_def Let_def div_point_def)
qed

lemma div_point_0: "div_point L N 0 = 0"
  by (simp add: div_point_def)

lemma div_point_N:
  assumes "0 < N"
  shows "div_point L N N = L"
proof -
  have "L mod N < N" using assms by simp
  then have "min N (L mod N) = L mod N" by simp
  then show ?thesis by (simp add: div_point_def)
qed

lemma div_point_Suc:
  "div_point L N (Suc i) = div_point L N i + (L div N + (if i < L mod N then 1 else 0))"
  by (simp add: div_point_def min_def)

lemma concat_slices:
  assumes "f 0 = 0" "\<And>i. f i \<le> f (Suc i)"
  shows "concat (map (\<lambda>i. py_slice xs (f i) (f (Suc i))) [0..<k]) = take (f k) xs"
proof (induction k)
  case 0 then show ?case using assms by simp
next
  case (Suc k)
  have "take (f k) xs @ take (f (Suc k) - f k) (drop (f k) xs) = take (f (Suc k)) xs"
    using assms(2)[of k] by (metis le_add_diff_inverse take_add)
  with Suc show ?case by (simp add: py_slice_def)
qed

lemma array_split_eq:
  assumes "0 < N"
  shows "array_split xs (int N) =
         Inr (map (\<lambda>i. py_slice xs (div_point (length xs) N i) (div_point (length xs) N (Suc i))) [0..<N])"
  using assms by (simp add: array_split_def Let_def div_points_nth)

lemma array_split_length:
  "array_split xs n = Inr bs \<Longrightarrow> length bs = nat n"
  by (auto simp: array_split_def Let_def split: if_splits)

lemma py_slice_length:
  "en \<le> length xs \<Longrightarrow> length (py_slice xs st en) = en - st"
  by (simp add: py_slice_def)

lemma div_point_mono: "i \<le> j \<Longrightarrow> div_point L N i \<le> div_point L N j"
  by (simp add: div_point_def add_mono mult_le_mono1 min.coboundedI1 min_le_iff_disj)

lemma div_point_le:
  assumes "0 < N" "i \<le> N" shows "div_point L N i \<le> L"
  using div_point_mono[OF assms(2), of L N] div_point_N[OF assms(1), of L] by simp

lemma bucket_length:
  assumes "0 < N" "i < N"
  shows "length (py_slice xs (div_point (length xs) N i) (div_point (length xs) N (Suc i)))
         = length xs div N + (if i < length xs mod N then 1 else 0)"
proof -
  have "div_point (length xs) N (Suc i) \<le> length xs"
    using assms by (intro div_point_le) auto
  then show ?thesis
    by (simp add: py_slice_length div_point_Suc)
qed

lemma array_split_concat:
  assumes "0 < N"
  shows "\<exists>bs. array_split xs (int N) = Inr bs \<and> concat bs = xs"
proof -
  have "concat (map (\<lambda>i. py_slice xs (div_point (length xs) N i) (div_point (length xs) N (Suc i))) [0..<N])
        = take (div_point (length xs) N N) xs"
    by (rule concat_slices) (simp_all add: div_point_0 div_point_Suc)
  then show ?thesis using assms by (simp add: array_split_eq div_point_N)
qed

lemma fold_start_thread_threads:
  "threads (fold start_thread vbs s) =
     threads s @ map (\<lambda>(k, vb). \<lparr>ident = Some (Suc (length (threads s) + k)), view_ix = fst vb,
        subset_indices = snd vb, todo = snd vb, status = Running, async_exc = False\<rparr>)
       (zip [0..<length vbs] vbs)"
proof (induction vbs arbitrary: s rule: rev_induct)
  case Nil then show ?case by simp
next
  case (snoc vb vbs)
  then show ?case by (simp add: start_thread_def Let_def)
qed


lemma map_zip_upt_snd: "map (\<lambda>x. g (snd x)) (zip [0..<length vbs] vbs) = map g vbs"
  by (rule nth_equalityI) auto

lemma run_new_threads:
  assumes "array_split (indices s) (int (length (views s))) = Inr bs"
  shows "\<exists>s'. run s = Inr s' \<and> map subset_indices (new_threads s s') = bs \<and>
           map todo (new_threads s s') = bs \<and>
           map view_ix (new_threads s s') = [0..<length (views s)] \<and>
           list_all (\<lambda>t. status t = Running) (new_threads s s')"
proof -
  have len: "length bs = length (views s)"
    using array_split_length[OF assms] by simp
  define vbs where "vbs = zip [0..<length (views s)] bs"
  have lv: "length vbs = length bs" by (simp add: vbs_def len)
  have s1: "map snd vbs = bs" and s2: "map fst vbs = [0..<length (views s)]"
    by (simp_all add: vbs_def len)
  show ?thesis
    using s1 s2 map_zip_upt_snd[of snd vbs] map_zip_upt_snd[of fst vbs]
    by (simp add: run_def assms new_threads_def fold_start_thread_threads vbs_def[symmetric]
        map_zip_upt_snd list_all_iff comp_def case_prod_unfold)
qed

text \<open>
  Claim C1.  When there is at least one view, \<open>run\<close> succeeds and registers one thread
  per view, in the order of the views; the buckets of these threads, concatenated in that
  order, are the index list itself, so that every index is in exactly one bucket and the
  order is kept within and across buckets.  A bucket has \<open>len div N\<close> elements, one more
  for each of the first \<open>len mod N\<close> buckets, so that two buckets differ in size by at
  most one.  When there are more views than indices, the first \<open>len\<close> buckets are the
  singletons of the indices and the others are empty.
\<close>

theorem run_partition:
  assumes "1 \<le> length (views s)"
  shows "\<exists>s' buckets.
           run s = Inr s' \<and> buckets = map subset_indices (new_threads s s') \<and>
           map view_ix (new_threads s s') = [0..<length (views s)] \<and>
           length buckets = length (views s) \<and>
           concat buckets = indices s \<and>
           (\<forall>j<length (views s).
              length (buckets ! j) =
                length (indices s) div length (views s) +
                (if j < length (indices s) mod length (views s) then 1 else 0)) \<and>
           (\<forall>j<length (views s). \<forall>k<length (views s).
              length (buckets ! j) \<le> length (buckets ! k) + 1) \<and>
           (length (indices s) < length (views s) \<longrightarrow>
              (\<forall>j<length (views s).
                 buckets ! j = (if j < length (indices s) then [indices s ! j] else [])))"
proof -
  define N where "N = length (views s)"
  define L where "L = indices s"
  define bs where
    "bs = map (\<lambda>i. py_slice L (div_point (length L) N i) (div_point (length L) N (Suc i))) [0..<N]"
  have N: "0 < N" using assms unfolding N_def by linarith
  have split: "array_split (indices s) (int (length (views s))) = Inr bs"
    using array_split_eq[OF N, of L] by (simp add: bs_def N_def L_def)
  from run_new_threads[OF split] obtain s' where
    s': "run s = Inr s'" "map subset_indices (new_threads s s') = bs"
        "map view_ix (new_threads s s') = [0..<N]"
    by (auto simp: N_def)
  have len: "length bs = N" by (simp add: bs_def)
  have cat: "concat bs = L"
    using array_split_concat[OF N, of L] array_split_eq[OF N, of L] by (simp add: bs_def)
  have size: "length (bs ! j) = length L div N + (if j < length L mod N then 1 else 0)"
    if "j < N" for j
    using bucket_length[OF N that, of L] that by (simp add: bs_def)
  have near: "length (bs ! j) \<le> length (bs ! k) + 1" if "j < N" "k < N" for j k
    using size[OF that(1)] size[OF that(2)] by simp
  have single: "bs ! j = (if j < length L then [L ! j] else [])"
    if small: "length L < N" and j: "j < N" for j
  proof -
    have d: "div_point (length L) N i = min i (length L)" for i
      using small by (simp add: div_point_def)
    have "bs ! j = py_slice L (min j (length L)) (min (Suc j) (length L))"
      using j by (simp add: bs_def d)
    also have "\<dots> = (if j < length L then [L ! j] else [])"
      by (auto simp: py_slice_def min_def take_Suc_conv_app_nth hd_drop_conv_nth
            not_less_eq_eq Suc_diff_le take_Suc)
    finally show ?thesis .
  qed
  show ?thesis
    using s' len cat size near single unfolding N_def L_def by blast
qed

theorem run_partition_witness:
  "1 \<le> length (views demo_gen) \<and> run demo_gen = Inr demo_running \<and>
   map subset_indices (new_threads demo_gen demo_running) = [[0, 2], [4, 6], [8, 10]] \<and>
   concat (map subset_indices (new_threads demo_gen demo_running)) = indices demo_gen"
proof -
  have h: "1 \<le> length (views demo_gen)" by (simp add: demo_gen_def)
  have r: "run demo_gen = Inr demo_running" by (rule demo_run)
  have b: "map subset_indices (new_threads demo_gen demo_running) = [[0, 2], [4, 6], [8, 10]]"
    by (simp add: new_threads_def demo_gen_def demo_running_def demo_thread_def)
  from run_partition[OF h] r have
    "concat (map subset_indices (new_threads demo_gen demo_running)) = indices demo_gen"
    by auto
  with h r b show ?thesis by simp
qed

section \<open>What teardown does\<close>

lemma demo_schedule: "schedule demo_running [0, 0, 0, 1, 1, 1, 2, 2, 2] = Some demo_done"
  by code_simp

lemma stop_one_skips: "stop_one self thread = Inr self"
  by (simp add: stop_one_def)

lemma stop_threads_skips: "stop_threads self ts = Inr self"
  by (induction ts) (simp_all add: stop_one_skips)

lemma cleanup_eq: "cleanup self = Inr (close_views (close_progress self))"
  by (simp add: cleanup_def stop_threads_skips)

lemma close_views_fold_keeps:
  "threads (fold (\<lambda>v s. s\<lparr>views := (views s)[v := (views s ! v)\<lparr>closed := True\<rparr>],
                   events := events s @ [ViewClose v]\<rparr>) vs s) = threads s \<and>
   progress_bar (fold (\<lambda>v s. s\<lparr>views := (views s)[v := (views s ! v)\<lparr>closed := True\<rparr>],
                   events := events s @ [ViewClose v]\<rparr>) vs s) = progress_bar s"
  by (induction vs arbitrary: s) simp_all

lemma close_views_threads: "threads (close_views s) = threads s"
  by (simp add: close_views_def close_views_fold_keeps)

lemma close_views_progress: "progress_bar (close_views s) = progress_bar s"
  by (simp add: close_views_def close_views_fold_keeps)

lemma close_progress_threads: "threads (close_progress s) = threads s"
  by (simp add: close_progress_def)

lemma close_progress_keeps_count: "counter (close_progress s) = counter s"
  by (cases "progress_bar s") (simp_all add: close_progress_def counter_def pb_close_def)

lemma cleanup_counter: "counter (close_views (close_progress s)) = counter s"
  using close_progress_keeps_count[of s] by (simp add: counter_def close_views_progress)

text \<open>
  Were \<open>_stop_thread\<close> called with both of its arguments on a worker that has ended, it
  would raise \<open>ValueError\<close>, which the loop of \<open>cleanup\<close> does not catch.
\<close>

lemma stop_thread_two_arguments_finished:
  assumes "ident t = Some k"
    and "\<forall>u \<in> set (threads s). ident u = Some k \<longrightarrow> status u \<noteq> Running"
  shows "stop_thread s [ArgSelf, ArgThread t] = Inl ValueError"
proof -
  have "filter (\<lambda>t. ident t = Some k \<and> status t = Running) (threads s) = []"
    using assms(2) by (auto simp: filter_empty_conv)
  then show ?thesis using assms(1) by (simp add: async_raise_def)
qed

text \<open>
  Claim C10.  Whatever the threads are and whatever state they are in, the call
  \<open>self._stop_thread(thread)\<close> of \<open>cleanup\<close> raises \<open>TypeError\<close>, the loop skips it, the
  loop and \<open>cleanup\<close> return without an error, and the threads are afterwards what they
  were: none has been stopped and none has an exception pending that it had not before.
\<close>

theorem cleanup_never_stops:
  "stop_thread s [ArgThread t] = Inl TypeError \<and>
   stop_one s t = Inr s \<and>
   stop_threads s ts = Inr s \<and>
   (\<exists>s'. cleanup s = Inr s' \<and> threads s' = threads s)"
  by (simp add: stop_one_skips stop_threads_skips cleanup_eq close_views_threads close_progress_threads)

text \<open>
  Claim C3.  For a registered worker that has completed, the forced stop as \<open>cleanup\<close>
  invokes it (the body of its loop) returns without an error and leaves the progress
  counter as it was, and so does \<open>cleanup\<close> as a whole.
\<close>

theorem stop_finished_worker:
  assumes "t \<in> set (threads s)" and "status t = Finished"
  shows "(\<exists>s'. stop_one s t = Inr s' \<and> counter s' = counter s) \<and>
         (\<exists>s'. cleanup s = Inr s' \<and> counter s' = counter s)"
  by (simp add: stop_one_skips cleanup_eq cleanup_counter)

theorem stop_finished_worker_witness:
  "demo_finished 1 0 [0, 2] \<in> set (threads demo_done) \<and>
   status (demo_finished 1 0 [0, 2]) = Finished \<and>
   (\<exists>s'. stop_one demo_done (demo_finished 1 0 [0, 2]) = Inr s' \<and> counter s' = 6) \<and>
   (\<exists>s'. cleanup demo_done = Inr s' \<and> counter s' = 6)"
proof -
  have m: "demo_finished 1 0 [0, 2] \<in> set (threads demo_done)"
    by (simp add: demo_done_def)
  have f: "status (demo_finished 1 0 [0, 2]) = Finished"
    by (simp add: demo_finished_def)
  have c: "counter demo_done = 6"
    by (simp add: counter_def demo_done_def)
  show ?thesis
    using m f stop_finished_worker[OF m f] by (simp add: c)
qed

text \<open>
  Claim C4, at a generator whose three workers are running.  \<open>cleanup\<close> closes the
  progress bar, then the views in their order, and returns without an error; the three
  workers are still running afterwards and no exception is pending in any of them.
\<close>

theorem cleanup_leaves_workers_running:
  "\<exists>s'. cleanup demo_running = Inr s' \<and>
        map status (threads s') = [Running, Running, Running] \<and>
        map async_exc (threads s') = [False, False, False] \<and>
        events s' = events demo_running @ [ProgressClose, ViewClose 0, ViewClose 1, ViewClose 2]"
proof -
  have t: "threads (close_views (close_progress demo_running)) = threads demo_running"
    by (simp add: close_views_threads close_progress_threads)
  have e: "events (close_views (close_progress demo_running)) =
           events demo_running @ [ProgressClose, ViewClose 0, ViewClose 1, ViewClose 2]"
    by code_simp
  have s: "map status (threads demo_running) = [Running, Running, Running]"
    "map async_exc (threads demo_running) = [False, False, False]"
    by (simp_all add: demo_running_def demo_thread_def)
  show ?thesis
    using t e s by (simp add: cleanup_eq)
qed

text \<open>On a generator on which \<open>run\<close> was never called, \<open>cleanup\<close> closes the views only.\<close>

lemma cleanup_before_run:
  "\<exists>s'. cleanup demo_gen = Inr s' \<and>
        events s' = events demo_gen @ [ViewClose 0, ViewClose 1, ViewClose 2]"
proof -
  have "events (close_views (close_progress demo_gen)) =
        events demo_gen @ [ViewClose 0, ViewClose 1, ViewClose 2]"
    by code_simp
  then show ?thesis by (simp add: cleanup_eq)
qed

section \<open>The progress counter\<close>

lemma fold_start_thread_keeps:
  "progress_bar (fold start_thread vbs s) = progress_bar s \<and>
   indices (fold start_thread vbs s) = indices s"
  by (induction vbs arbitrary: s) (simp_all add: start_thread_def Let_def)

lemma pending_todo_update:
  assumes "k < length ts" and "todo (ts ! k) = i # rest"
  shows "sum_list (map (\<lambda>t. length (todo t)) (ts[k := (ts ! k)\<lparr>todo := rest\<rparr>])) + 1 =
         sum_list (map (\<lambda>t. length (todo t)) ts)"
proof -
  define A where "A = take k ts"
  define B where "B = drop (Suc k) ts"
  define x where "x = ts ! k"
  have e1: "A @ x # B = ts"
    using assms(1) by (simp add: A_def B_def x_def id_take_nth_drop[symmetric])
  have e2: "A @ (x\<lparr>todo := rest\<rparr>) # B = ts[k := x\<lparr>todo := rest\<rparr>]"
    using assms(1) by (simp add: A_def B_def upd_conv_take_nth_drop)
  have t: "todo x = i # rest" using assms(2) by (simp add: x_def)
  have "sum_list (map (\<lambda>t. length (todo t)) (A @ (x\<lparr>todo := rest\<rparr>) # B)) + 1 =
        sum_list (map (\<lambda>t. length (todo t)) (A @ x # B))"
    by (simp add: t)
  then show ?thesis
    unfolding e1 e2 by (simp only: x_def)
qed


lemma run_keeps:
  assumes "run s = Inr s'"
  shows "indices s' = indices s"
    and "progress_bar s' = Some \<lparr>pb_total = length (indices s), pb_n = 0, pb_disable = False\<rparr>"
    and "threads s' = threads s @ new_threads s s'"
proof -
  obtain bs where bs: "array_split (indices s) (int (length (views s))) = Inr bs"
    using assms by (cases "array_split (indices s) (int (length (views s)))") (simp_all add: run_def)
  define s1 where "s1 = s\<lparr>progress_bar :=
                            Some \<lparr>pb_total = length (indices s), pb_n = 0, pb_disable = False\<rparr>,
                          events := events s @ [ProgressOpen (length (indices s))]\<rparr>"
  have s': "s' = fold start_thread (zip [0..<length (views s)] bs) s1"
    using assms by (simp add: run_def bs s1_def)
  show "indices s' = indices s"
    by (simp add: s' fold_start_thread_keeps s1_def)
  show "progress_bar s' = Some \<lparr>pb_total = length (indices s), pb_n = 0, pb_disable = False\<rparr>"
    by (simp add: s' fold_start_thread_keeps s1_def)
  have "threads s1 = threads s" by (simp add: s1_def)
  then show "threads s' = threads s @ new_threads s s'"
    by (simp add: s' fold_start_thread_threads new_threads_def)
qed

lemma run_views_nonempty:
  assumes "run s = Inr s'"
  shows "0 < length (views s)"
proof (rule ccontr)
  assume "\<not> 0 < length (views s)"
  then have "array_split (indices s) (int (length (views s))) = Inl ValueError"
    by (simp add: array_split_def)
  then show False using assms by (simp add: run_def)
qed


lemma sum_length_concat: "sum_list (map length bs) = length (concat bs)"
  by (induction bs) simp_all

lemma pending_new:
  assumes "map todo ts = bs"
  shows "sum_list (map (\<lambda>t. length (todo t)) ts) = length (concat bs)"
proof -
  have "map (\<lambda>t. length (todo t)) ts = map length (map todo ts)" by simp
  then show ?thesis using assms by (simp only: sum_length_concat)
qed

lemma pending_old:
  assumes "\<forall>t \<in> set ts. todo t = []"
  shows "sum_list (map (\<lambda>t. length (todo t)) ts) = 0"
  using assms by (induction ts) simp_all

lemma run_establishes_inv:
  assumes old: "\<forall>t \<in> set (threads s0). todo t = []" and run: "run s0 = Inr s1"
  shows "progress_inv s1"
proof -
  have N: "0 < length (views s0)" by (rule run_views_nonempty[OF run])
  define bs where "bs = map (\<lambda>i. py_slice (indices s0)
      (div_point (length (indices s0)) (length (views s0)) i)
      (div_point (length (indices s0)) (length (views s0)) (Suc i))) [0..<length (views s0)]"
  have split: "array_split (indices s0) (int (length (views s0))) = Inr bs"
    unfolding bs_def by (rule array_split_eq[OF N])
  from array_split_concat[OF N, of "indices s0"] split have cat: "concat bs = indices s0"
    by simp
  from run_new_threads[OF split] run have
    td: "map todo (new_threads s0 s1) = bs" and
    st: "list_all (\<lambda>t. status t = Running) (new_threads s0 s1)"
    by simp_all
  have thr: "threads s1 = threads s0 @ new_threads s0 s1" by (rule run_keeps(3)[OF run])
  have "pending s1 = length (indices s0)"
    unfolding pending_def thr
    by (simp add: pending_old[OF old] pending_new[OF td] cat)
  moreover have "list_all (\<lambda>t. status t = Finished \<longrightarrow> todo t = []) (threads s1)"
    unfolding thr using old st by (auto simp: list_all_iff)
  ultimately show ?thesis
    by (simp add: progress_inv_def run_keeps(1,2)[OF run])
qed


lemma generate_image_effect:
  assumes "progress_bar s = Some p" and "\<not> pb_disable p"
  shows "\<exists>s'. generate_image s v i = Inr s' \<and>
              progress_bar s' = Some (p\<lparr>pb_n := pb_n p + 1\<rparr>) \<and>
              threads s' = threads s \<and> indices s' = indices s \<and>
              events s' = events s @ [SaveImage (frame_path (image_folder s) i), ProgressUpdate]"
  using assms by (simp add: generate_image_def Let_def pb_update_def)

lemma pending_status_update:
  assumes "k < length ts"
  shows "map (\<lambda>t. length (todo t)) (ts[k := (ts ! k)\<lparr>status := st\<rparr>]) = map (\<lambda>t. length (todo t)) ts"
  using assms by (simp add: map_update list_update_same_conv)

lemma finished_after_update:
  assumes "list_all (\<lambda>t. status t = Finished \<longrightarrow> todo t = []) ts"
    and "status x = Finished \<longrightarrow> todo x = []"
  shows "list_all (\<lambda>t. status t = Finished \<longrightarrow> todo t = []) (ts[k := x])"
proof -
  have "set (ts[k := x]) \<subseteq> insert x (set ts)" by (rule set_update_subset_insert)
  then show ?thesis using assms unfolding list_all_iff by blast
qed

lemma worker_step_inv:
  assumes inv: "progress_inv s" and step: "worker_step s s'"
  shows "progress_inv s' \<and> indices s' = indices s \<and>
         counter s \<le> counter s' \<and> counter s' \<le> counter s + 1"
proof -
  from inv obtain p where p: "progress_bar s = Some p" "\<not> pb_disable p"
      "pb_n p + pending s = length (indices s)"
    and fin: "list_all (\<lambda>t. status t = Finished \<longrightarrow> todo t = []) (threads s)"
    by (auto simp: progress_inv_def split: option.splits)
  from step show ?thesis
  proof (cases rule: worker_step.cases)
    case (frame_done k i rest s'')
    from generate_image_effect[OF p(1,2), of "view_ix (threads s ! k)" i] frame_done(5)
    have e: "progress_bar s'' = Some (p\<lparr>pb_n := pb_n p + 1\<rparr>)" "threads s'' = threads s"
      "indices s'' = indices s"
      by simp_all
    have pend: "pending s' + 1 = pending s"
      using pending_todo_update[OF frame_done(2) frame_done(4)]
      by (simp add: pending_def frame_done(1) e(2))
    have run: "status ((threads s ! k)\<lparr>todo := rest\<rparr>) = Finished \<longrightarrow>
               todo ((threads s ! k)\<lparr>todo := rest\<rparr>) = []"
      using frame_done(3) by simp
    have fin': "list_all (\<lambda>t. status t = Finished \<longrightarrow> todo t = []) (threads s')"
      using finished_after_update[OF fin run, of k] by (simp add: frame_done(1) e(2))
    have pb: "progress_bar s' = Some (p\<lparr>pb_n := pb_n p + 1\<rparr>)" "indices s' = indices s"
      by (simp_all add: frame_done(1) e)
    show ?thesis
      using p(3) pend fin' by (simp add: progress_inv_def pb counter_def p(1,2))
  next
    case (bucket_done k)
    have pend: "pending s' = pending s"
      using pending_status_update[OF bucket_done(2), of Finished]
      by (simp add: pending_def bucket_done(1))
    have ok: "status ((threads s ! k)\<lparr>status := Finished\<rparr>) = Finished \<longrightarrow>
               todo ((threads s ! k)\<lparr>status := Finished\<rparr>) = []"
      using bucket_done(4) by simp
    have fin': "list_all (\<lambda>t. status t = Finished \<longrightarrow> todo t = []) (threads s')"
      using finished_after_update[OF fin ok, of k] by (simp add: bucket_done(1))
    have pb: "progress_bar s' = Some p" "indices s' = indices s"
      by (simp_all add: bucket_done(1) p(1))
    show ?thesis
      using p(3) pend fin' by (simp add: progress_inv_def pb counter_def p(1,2))
  next
    case (worker_died k i rest)
    have pend: "pending s' = pending s"
      using pending_status_update[OF worker_died(2), of Failed]
      by (simp add: pending_def worker_died(1))
    have ok: "status ((threads s ! k)\<lparr>status := Failed\<rparr>) = Finished \<longrightarrow>
               todo ((threads s ! k)\<lparr>status := Failed\<rparr>) = []"
      by simp
    have fin': "list_all (\<lambda>t. status t = Finished \<longrightarrow> todo t = []) (threads s')"
      using finished_after_update[OF fin ok, of k] by (simp add: worker_died(1))
    have pb: "progress_bar s' = Some p" "indices s' = indices s"
      by (simp_all add: worker_died(1) p(1))
    show ?thesis
      using p(3) pend fin' by (simp add: progress_inv_def pb counter_def p(1,2))
  qed
qed

lemma reachable_inv:
  assumes "worker_step\<^sup>*\<^sup>* s1 s" and "progress_inv s1"
  shows "progress_inv s \<and> indices s = indices s1 \<and> counter s1 \<le> counter s"
  using assms
proof (induction rule: rtranclp_induct)
  case base
  then show ?case by simp
next
  case (step y z)
  with worker_step_inv[of y z] show ?case by auto
qed


lemma worker_next_step:
  assumes "worker_next s k = Some s'"
  shows "worker_step s s'"
proof -
  from assms have k: "k < length (threads s)" "status (threads s ! k) = Running"
    by (simp_all add: worker_next_def split: if_splits)
  show ?thesis
  proof (cases "todo (threads s ! k)")
    case Nil
    with assms k have "s' = s\<lparr>threads := (threads s)[k := (threads s ! k)\<lparr>status := Finished\<rparr>]\<rparr>"
      by (simp add: worker_next_def)
    then show ?thesis using worker_step.bucket_done[OF k Nil] by simp
  next
    case (Cons i rest)
    with assms k obtain s'' where
      g: "generate_image s (view_ix (threads s ! k)) i = Inr s''" and
      s': "s' = s''\<lparr>threads := (threads s'')[k := (threads s'' ! k)\<lparr>todo := rest\<rparr>]\<rparr>"
      by (auto simp: worker_next_def split: sum.splits)
    show ?thesis unfolding s' by (rule worker_step.frame_done[OF k Cons g])
  qed
qed

lemma schedule_reachable:
  assumes "schedule s ks = Some s'"
  shows "worker_step\<^sup>*\<^sup>* s s'"
  using assms
proof (induction ks arbitrary: s)
  case Nil
  then show ?case by simp
next
  case (Cons k ks)
  then obtain s1 where n: "worker_next s k = Some s1" and r: "schedule s1 ks = Some s'"
    by (auto split: option.splits)
  from worker_next_step[OF n] Cons.IH[OF r] show ?case
    by (rule converse_rtranclp_into_rtranclp)
qed

lemma all_finished_pending:
  assumes "list_all (\<lambda>t. status t = Finished \<longrightarrow> todo t = []) ts"
    and "list_all (\<lambda>t. status t = Finished) ts"
  shows "sum_list (map (\<lambda>t. length (todo t)) ts) = 0"
  using assms by (induction ts) simp_all

text \<open>
  The loop of \<open>generate_images\<close> as a whole: on an open progress bar it saves the frames of
  its bucket in order and adds the length of the bucket to the counter.
\<close>

lemma generate_images_effect:
  assumes "progress_bar s = Some p" and "\<not> pb_disable p"
  shows "\<exists>s'. generate_images s v js = Inr s' \<and>
              progress_bar s' = Some (p\<lparr>pb_n := pb_n p + length js\<rparr>) \<and>
              image_folder s' = image_folder s \<and>
              events s' = events s @
                concat (map (\<lambda>i. [SaveImage (frame_path (image_folder s) i), ProgressUpdate]) js)"
  using assms
proof (induction js arbitrary: s p)
  case Nil
  then show ?case by simp
next
  case (Cons i js)
  have g: "generate_image s v i =
           Inr (s\<lparr>views := (views s)[v := (views s ! v)\<lparr>frame := i\<rparr>],
                  events := events s @ [SaveImage (frame_path (image_folder s) i), ProgressUpdate],
                  progress_bar := Some (p\<lparr>pb_n := pb_n p + 1\<rparr>)\<rparr>)"
    using Cons.prems by (simp add: generate_image_def Let_def pb_update_def)
  define s1 where "s1 = s\<lparr>views := (views s)[v := (views s ! v)\<lparr>frame := i\<rparr>],
                  events := events s @ [SaveImage (frame_path (image_folder s) i), ProgressUpdate],
                  progress_bar := Some (p\<lparr>pb_n := pb_n p + 1\<rparr>)\<rparr>"
  have p1: "progress_bar s1 = Some (p\<lparr>pb_n := pb_n p + 1\<rparr>)" "\<not> pb_disable (p\<lparr>pb_n := pb_n p + 1\<rparr>)"
    using Cons.prems(2) by (simp_all add: s1_def)
  from Cons.IH[OF p1] obtain s' where
    s': "generate_images s1 v js = Inr s'"
        "progress_bar s' = Some (p\<lparr>pb_n := pb_n p + 1 + length js\<rparr>)"
        "image_folder s' = image_folder s1"
        "events s' = events s1 @
           concat (map (\<lambda>i. [SaveImage (frame_path (image_folder s1) i), ProgressUpdate]) js)"
    by auto
  have "generate_images s v (i # js) = Inr s'"
    using g s'(1) by (simp add: s1_def)
  moreover have "progress_bar s' = Some (p\<lparr>pb_n := pb_n p + length (i # js)\<rparr>)"
    using s'(2) by (simp add: add.assoc)
  moreover have "image_folder s' = image_folder s" using s'(3) by (simp add: s1_def)
  moreover have "events s' = events s @
      concat (map (\<lambda>i. [SaveImage (frame_path (image_folder s) i), ProgressUpdate]) (i # js))"
    using s'(4) by (simp add: s1_def)
  ultimately show ?case by blast
qed

text \<open>
  Claim C5 fails in states that further calls reach.  After a second \<open>run\<close> while the
  three workers of the first are still at work, all six workers update the new progress
  bar, and the counter ends at 12 for 6 indices.  After \<open>cleanup\<close> while the workers are at
  work, the bar is closed and ignores the updates of the workers, which go on: all of them
  finish and the counter is still 0.
\<close>

theorem counter_overrun:
  "run demo_gen = Inr demo_running \<and>
   length (indices demo_running) = 6 \<and>
   map_option (\<lambda>s. (counter s, length (indices s)))
     (then_schedule (run demo_running)
        [0, 0, 0, 1, 1, 1, 2, 2, 2, 3, 3, 3, 4, 4, 4, 5, 5, 5]) = Some (12, 6) \<and>
   map_option (\<lambda>s. (counter s, map status (threads s)))
     (then_schedule (cleanup demo_running) [0, 0, 0, 1, 1, 1, 2, 2, 2]) =
     Some (0, [Finished, Finished, Finished])"
proof -
  have a: "length (indices demo_running) = 6" by code_simp
  have b: "map_option (\<lambda>s. (counter s, length (indices s)))
     (then_schedule (run demo_running)
        [0, 0, 0, 1, 1, 1, 2, 2, 2, 3, 3, 3, 4, 4, 4, 5, 5, 5]) = Some (12, 6)"
    by code_simp
  have c: "map_option (\<lambda>s. (counter s, map status (threads s)))
     (then_schedule (cleanup demo_running) [0, 0, 0, 1, 1, 1, 2, 2, 2]) =
     Some (0, [Finished, Finished, Finished])"
    by code_simp
  show ?thesis using a b c by (simp add: demo_run)
qed

text \<open>
  Claim C5 as amended.  Let \<open>run\<close> succeed on a generator whose earlier workers, if any,
  have no frames left, and let \<open>s\<close> be a state that the workers reach from there by their
  own steps, with no further call of \<open>run\<close> or \<open>cleanup\<close>.  The counter is zero after
  \<open>run\<close> and at most the number of indices in \<open>s\<close>.  In \<open>s\<close>, an iteration of the loop of
  \<open>generate_images\<close> saves the frame and then adds exactly one to the counter, and a step
  of a worker never lowers the counter and raises it by at most one.  When all workers
  have finished, the counter is the number of indices.
\<close>

theorem progress_counter:
  assumes "\<forall>t \<in> set (threads s0). todo t = []"
    and "run s0 = Inr s1"
    and "worker_step\<^sup>*\<^sup>* s1 s"
  shows "counter s1 = 0 \<and>
         counter s \<le> length (indices s0) \<and>
         (\<forall>v i. \<exists>s'. generate_image s v i = Inr s' \<and> counter s' = counter s + 1 \<and>
                  events s' = events s @ [SaveImage (frame_path (image_folder s) i), ProgressUpdate]) \<and>
         (\<forall>s'. worker_step s s' \<longrightarrow> counter s \<le> counter s' \<and> counter s' \<le> counter s + 1) \<and>
         (list_all (\<lambda>t. status t = Finished) (threads s) \<longrightarrow> counter s = length (indices s0))"
proof -
  have inv1: "progress_inv s1" by (rule run_establishes_inv[OF assms(1,2)])
  have c1: "counter s1 = 0" by (simp add: counter_def run_keeps(2)[OF assms(2)])
  from reachable_inv[OF assms(3) inv1] have inv: "progress_inv s" and ix: "indices s = indices s1"
    by simp_all
  have ix0: "indices s = indices s0" by (simp add: ix run_keeps(1)[OF assms(2)])
  from inv obtain p where p: "progress_bar s = Some p" "\<not> pb_disable p"
      "pb_n p + pending s = length (indices s)"
    and fin: "list_all (\<lambda>t. status t = Finished \<longrightarrow> todo t = []) (threads s)"
    by (auto simp: progress_inv_def split: option.splits)
  have le: "counter s \<le> length (indices s0)"
    using p(3) by (simp add: counter_def p(1) ix0)
  have frame: "\<exists>s'. generate_image s v i = Inr s' \<and> counter s' = counter s + 1 \<and>
                  events s' = events s @ [SaveImage (frame_path (image_folder s) i), ProgressUpdate]"
    for v i
    using generate_image_effect[OF p(1,2), of v i] by (auto simp: counter_def p(1))
  have mono: "counter s \<le> counter s' \<and> counter s' \<le> counter s + 1" if "worker_step s s'" for s'
    using worker_step_inv[OF inv that] by simp
  have complete: "counter s = length (indices s0)" if "list_all (\<lambda>t. status t = Finished) (threads s)"
  proof -
    have "pending s = 0" unfolding pending_def by (rule all_finished_pending[OF fin that])
    with p(3) show ?thesis by (simp add: counter_def p(1) ix0)
  qed
  show ?thesis
    using c1 le frame mono complete by blast
qed

theorem progress_counter_witness:
  "threads demo_gen = [] \<and>
   run demo_gen = Inr demo_running \<and>
   worker_step\<^sup>*\<^sup>* demo_running demo_done \<and>
   counter demo_running = 0 \<and>
   list_all (\<lambda>t. status t = Finished) (threads demo_done) \<and>
   counter demo_done = 6 \<and> length (indices demo_gen) = 6"
proof -
  have h1: "\<forall>t \<in> set (threads demo_gen). todo t = []" by (simp add: demo_gen_def)
  have h2: "run demo_gen = Inr demo_running" by (rule demo_run)
  have h3: "worker_step\<^sup>*\<^sup>* demo_running demo_done"
    by (rule schedule_reachable[OF demo_schedule])
  have f: "list_all (\<lambda>t. status t = Finished) (threads demo_done)"
    by (simp add: demo_done_def demo_finished_def)
  have l: "length (indices demo_gen) = 6" by (simp add: demo_gen_def)
  have e: "threads demo_gen = []" by (simp add: demo_gen_def)
  show ?thesis
    using e h2 h3 f l progress_counter[OF h1 h2 h3] by simp
qed

section \<open>The smoothing windows\<close>

lemma py_slice_map: "py_slice (map g xs) st en = map g (py_slice xs st en)"
  by (simp add: py_slice_def take_map drop_map)

lemma py_slice_nth:
  assumes "en \<le> length xs"
  shows "py_slice xs st en = map ((!) xs) [st..<en]"
proof (rule nth_equalityI)
  show "length (py_slice xs st en) = length (map ((!) xs) [st..<en])"
    using assms by (simp add: py_slice_def)
next
  fix j assume "j < length (py_slice xs st en)"
  then have "j < en - st" using assms by (simp add: py_slice_def)
  then show "py_slice xs st en ! j = map ((!) xs) [st..<en] ! j"
    using assms by (simp add: py_slice_def)
qed

lemma assign_axis1_length:
  "length col = length arr \<Longrightarrow> length (assign_axis1 arr i col) = length arr"
  by (simp add: assign_axis1_def)

lemma assign_axis1_nth:
  "length col = length arr \<Longrightarrow> a < length arr \<Longrightarrow>
   assign_axis1 arr i col ! a = (arr ! a)[i := col ! a]"
  by (simp add: assign_axis1_def)

text \<open>The column that the loop of \<open>get_smooth_positions\<close> writes for frame \<open>i\<close>.\<close>

lemma window_column:
  assumes "a < length ts"
  shows "mean_axis1 mean (slice_axis1 ts st en) ! a = mean (py_slice (ts ! a) st en)"
    and "length (mean_axis1 mean (slice_axis1 ts st en)) = length ts"
  using assms by (simp_all add: mean_axis1_def slice_axis1_def)

lemma fill_columns:
  assumes len: "length sm0 = A" and cols: "\<And>i. length (col i) = A"
    and rows: "\<And>a. a < A \<Longrightarrow> length (sm0 ! a) = T"
    and k: "k \<le> T"
  shows "length (fold (\<lambda>i sm. assign_axis1 sm i (col i)) [0..<k] sm0) = A \<and>
         (\<forall>a<A. length (fold (\<lambda>i sm. assign_axis1 sm i (col i)) [0..<k] sm0 ! a) = T \<and>
            (\<forall>i<T. fold (\<lambda>i sm. assign_axis1 sm i (col i)) [0..<k] sm0 ! a ! i =
                     (if i < k then col i ! a else sm0 ! a ! i)))"
  using k
proof (induction k)
  case 0
  then show ?case using len rows by simp
next
  case (Suc k)
  define sm where "sm = fold (\<lambda>i sm. assign_axis1 sm i (col i)) [0..<k] sm0"
  from Suc have ih: "length sm = A"
    "\<And>a. a < A \<Longrightarrow> length (sm ! a) = T"
    "\<And>a i. a < A \<Longrightarrow> i < T \<Longrightarrow> sm ! a ! i = (if i < k then col i ! a else sm0 ! a ! i)"
    by (simp_all add: sm_def)
  have step: "fold (\<lambda>i sm. assign_axis1 sm i (col i)) [0..<Suc k] sm0 = assign_axis1 sm k (col k)"
    by (simp add: sm_def)
  have c: "length (col k) = length sm" by (simp add: cols ih(1))
  have l: "length (assign_axis1 sm k (col k)) = A"
    using assign_axis1_length[OF c] ih(1) by simp
  have r: "assign_axis1 sm k (col k) ! a = (sm ! a)[k := col k ! a]" if "a < A" for a
    using assign_axis1_nth[OF c, of a k] that ih(1) by simp
  have v: "assign_axis1 sm k (col k) ! a ! i = (if i < Suc k then col i ! a else sm0 ! a ! i)"
    if "a < A" "i < T" for a i
    using that ih(2)[OF that(1)] ih(3)[OF that] r[OF that(1)] Suc.prems
    by (cases "i = k") (simp_all add: nth_list_update)
  show ?case
    unfolding step using l r v ih(2) by simp
qed


lemma window_bounds:
  assumes "i < T"
  shows "snd (window w T i) \<le> T"
  by (simp add: window_def)

text \<open>Where every index is within axis 1, the loop raises nothing and is a fold.\<close>

lemma smooth_columns_fold:
  assumes "\<forall>i \<in> set js. i < size1"
  shows "smooth_columns mean w T size1 ts js sm =
         Inr (fold (\<lambda>i sm. assign_axis1 sm i
                (mean_axis1 mean (slice_axis1 ts (fst (window w T i)) (snd (window w T i))))) js sm)"
  using assms by (induction js arbitrary: sm) (simp_all add: case_prod_unfold Let_def)

lemma get_smooth_positions_columns:
  assumes "ts_order (traj self) = AtomsFirst"
  shows "\<exists>sm. get_smooth_positions mean self = Inr sm \<and>
          length sm = n_atoms (traj self) \<and>
          (\<forall>b<n_atoms (traj self). \<forall>j<length (trajectory (traj self)).
             sm ! b ! j =
             mean_axis1 mean (slice_axis1 (timeseries (traj self))
               (fst (window (smoothing_window self) (length (trajectory (traj self))) j))
               (snd (window (smoothing_window self) (length (trajectory (traj self))) j))) ! b)"
proof -
  define U where "U = traj self"
  define T where "T = length (trajectory U)"
  define A where "A = n_atoms U"
  define w where "w = smoothing_window self"
  define ts where "ts = timeseries U"
  define col where "col = (\<lambda>i. mean_axis1 mean (slice_axis1 ts (fst (window w T i)) (snd (window w T i))))"
  have ax: "timeseries_axis1 U = T"
    using assms by (simp add: timeseries_axis1_def U_def T_def)
  have g: "get_smooth_positions mean self =
           Inr (fold (\<lambda>i sm. assign_axis1 sm i (col i)) [0..<T] (zeros_like ts))"
    unfolding get_smooth_positions_def Let_def U_def[symmetric] T_def[symmetric] ts_def[symmetric]
      w_def[symmetric] ax col_def
    by (rule smooth_columns_fold) simp
  have lts: "length ts = A"
    using assms by (simp add: ts_def timeseries_def A_def U_def)
  have row: "ts ! b = map (\<lambda>f. f ! b) (trajectory U)" if "b < A" for b
    using that assms by (simp add: ts_def timeseries_def A_def U_def)
  have z: "length (zeros_like ts) = A" "\<And>b. b < A \<Longrightarrow> length (zeros_like ts ! b) = T"
    by (simp_all add: zeros_like_def lts row T_def)
  have cl: "\<And>j. length (col j) = A"
    by (simp add: col_def mean_axis1_def slice_axis1_def lts)
  from fill_columns[of "zeros_like ts" A col T T, OF z(1) cl z(2)]
  have "length (fold (\<lambda>i sm. assign_axis1 sm i (col i)) [0..<T] (zeros_like ts)) = A \<and>
    (\<forall>b<A. \<forall>j<T. fold (\<lambda>i sm. assign_axis1 sm i (col i)) [0..<T] (zeros_like ts) ! b ! j = col j ! b)"
    by simp
  then show ?thesis
    unfolding g by (simp add: A_def T_def U_def col_def ts_def w_def)
qed

lemma get_smooth_positions_nth:
  assumes o: "ts_order (traj self) = AtomsFirst"
  shows "\<exists>sm. get_smooth_positions mean self = Inr sm \<and>
          length sm = n_atoms (traj self) \<and>
          (\<forall>a<n_atoms (traj self). \<forall>i<length (trajectory (traj self)).
             sm ! a ! i =
             mean (map (\<lambda>f. trajectory (traj self) ! f ! a)
                [fst (window (smoothing_window self) (length (trajectory (traj self))) i)..<
                 snd (window (smoothing_window self) (length (trajectory (traj self))) i)]))"
proof -
  define U where "U = traj self"
  define T where "T = length (trajectory U)"
  from get_smooth_positions_columns[OF o, of mean] obtain sm where
    sm: "get_smooth_positions mean self = Inr sm" "length sm = n_atoms U"
    and cols: "\<And>b j. b < n_atoms U \<Longrightarrow> j < T \<Longrightarrow>
             sm ! b ! j =
             mean_axis1 mean (slice_axis1 (timeseries U)
               (fst (window (smoothing_window self) T j))
               (snd (window (smoothing_window self) T j))) ! b"
    unfolding U_def T_def by blast
  have v: "sm ! a ! i = mean (map (\<lambda>f. trajectory U ! f ! a)
                [fst (window (smoothing_window self) T i)..<snd (window (smoothing_window self) T i)])"
    if a: "a < n_atoms U" and i: "i < T" for a i
  proof -
    define st where "st = fst (window (smoothing_window self) T i)"
    define en where "en = snd (window (smoothing_window self) T i)"
    have en: "en \<le> length (trajectory U)"
      using window_bounds[of i T "smoothing_window self"] i by (simp add: T_def en_def)
    have row: "timeseries U ! a = map (\<lambda>f. f ! a) (trajectory U)"
      using a o by (simp add: timeseries_def U_def)
    have la: "a < length (timeseries U)" using a o by (simp add: timeseries_def U_def)
    have "sm ! a ! i = mean_axis1 mean (slice_axis1 (timeseries U) st en) ! a"
      using cols[OF a i] by (simp add: st_def en_def)
    also have "\<dots> = mean (py_slice (timeseries U ! a) st en)"
      using la by (simp add: mean_axis1_def slice_axis1_def)
    also have "\<dots> = mean (map (\<lambda>f. f ! a) (py_slice (trajectory U) st en))"
      by (simp add: row py_slice_map)
    also have "\<dots> = mean (map (\<lambda>f. trajectory U ! f ! a) [st..<en])"
      by (simp add: py_slice_nth[OF en] comp_def)
    finally show ?thesis by (simp add: st_def en_def)
  qed
  from sm v show ?thesis unfolding U_def T_def by blast
qed

text \<open>Where every column has as many rows as there are atoms, the loop of assignments
  raises nothing and replaces the frames one by one.\<close>

lemma assign_positions_fold:
  assumes "\<forall>i \<in> set js. i < size1" and "length sm = A"
  shows "assign_positions size1 A sm js frames =
         Inr (fold (\<lambda>i fr. fr[i := index_axis1 sm i]) js frames)"
  using assms
  by (induction js arbitrary: frames) (simp_all add: set_positions_def index_axis1_def)

lemma fold_update_upt:
  assumes "k \<le> length frames"
  shows "fold (\<lambda>i fr. fr[i := f i]) [0..<k] frames = map f [0..<k] @ drop k frames"
  using assms
proof (induction k)
  case 0
  then show ?case by simp
next
  case (Suc k)
  then have k: "k < length frames" by simp
  have "(map f [0..<k] @ drop k frames)[k := f k] = map f [0..<k] @ (drop k frames)[0 := f k]"
    by (simp add: list_update_append)
  also have "\<dots> = map f [0..<k] @ f k # drop (Suc k) frames"
    using k by (simp add: Cons_nth_drop_Suc[symmetric])
  finally show ?case using Suc by simp
qed

lemma smooth_trajectory_atoms_first:
  assumes o: "ts_order (traj g) = AtomsFirst"
  shows "\<exists>sm. get_smooth_positions mean g = Inr sm \<and>
           smooth_trajectory mean g =
             Inr (if in_memory (traj g)
                  then g\<lparr>traj := (traj g)\<lparr>trajectory :=
                         map (index_axis1 sm) [0..<length (trajectory (traj g))]\<rparr>\<rparr>
                  else g)"
proof -
  from get_smooth_positions_columns[OF o, of mean] obtain sm where
    sm: "get_smooth_positions mean g = Inr sm" "length sm = n_atoms (traj g)"
    by blast
  have ax: "timeseries_axis1 (traj g) = length (trajectory (traj g))"
    using o by (simp add: timeseries_axis1_def)
  have "assign_positions (timeseries_axis1 (traj g)) (n_atoms (traj g)) sm
          [0..<length (trajectory (traj g))] (trajectory (traj g)) =
        Inr (fold (\<lambda>i fr. fr[i := index_axis1 sm i]) [0..<length (trajectory (traj g))]
               (trajectory (traj g)))"
    unfolding ax by (rule assign_positions_fold) (simp_all add: sm(2))
  also have "fold (\<lambda>i fr. fr[i := index_axis1 sm i]) [0..<length (trajectory (traj g))]
               (trajectory (traj g)) = map (index_axis1 sm) [0..<length (trajectory (traj g))]"
    using fold_update_upt[of "length (trajectory (traj g))" "trajectory (traj g)" "index_axis1 sm"]
    by simp
  finally show ?thesis
    using sm(1) by (simp add: smooth_trajectory_def)
qed

lemma smooth_trajectory_frames:
  assumes o: "ts_order (traj g) = AtomsFirst" and m: "in_memory (traj g)"
  shows "\<exists>g'. smooth_trajectory mean g = Inr g' \<and>
           n_atoms (traj g') = n_atoms (traj g) \<and>
           length (trajectory (traj g')) = length (trajectory (traj g)) \<and>
           (\<forall>i<length (trajectory (traj g)).
              trajectory (traj g') ! i =
                mean_over_frames mean (traj g)
                  (fst (window (smoothing_window g) (length (trajectory (traj g))) i))
                  (snd (window (smoothing_window g) (length (trajectory (traj g))) i)))"
proof -
  from get_smooth_positions_nth[OF o, of mean] obtain sm where
    sm: "get_smooth_positions mean g = Inr sm" "length sm = n_atoms (traj g)"
    and v: "\<And>a i. a < n_atoms (traj g) \<Longrightarrow> i < length (trajectory (traj g)) \<Longrightarrow>
             sm ! a ! i =
             mean (map (\<lambda>f. trajectory (traj g) ! f ! a)
                [fst (window (smoothing_window g) (length (trajectory (traj g))) i)..<
                 snd (window (smoothing_window g) (length (trajectory (traj g))) i)])"
    by blast
  define g' where "g' = g\<lparr>traj := (traj g)\<lparr>trajectory :=
                         map (index_axis1 sm) [0..<length (trajectory (traj g))]\<rparr>\<rparr>"
  have r: "smooth_trajectory mean g = Inr g'"
    using smooth_trajectory_atoms_first[OF o, of mean] sm(1) m by (simp add: g'_def)
  have fr: "trajectory (traj g') ! i =
         mean_over_frames mean (traj g)
           (fst (window (smoothing_window g) (length (trajectory (traj g))) i))
           (snd (window (smoothing_window g) (length (trajectory (traj g))) i))"
    if i: "i < length (trajectory (traj g))" for i
  proof -
    have "trajectory (traj g') ! i = index_axis1 sm i"
      using i by (simp add: g'_def)
    also have "\<dots> = map (\<lambda>a. sm ! a ! i) [0..<n_atoms (traj g)]"
      unfolding index_axis1_def
      by (rule nth_equalityI) (simp_all add: sm(2))
    also have "\<dots> = mean_over_frames mean (traj g)
           (fst (window (smoothing_window g) (length (trajectory (traj g))) i))
           (snd (window (smoothing_window g) (length (trajectory (traj g))) i))"
      unfolding mean_over_frames_def
      by (rule map_cong) (simp_all add: v[OF _ i])
    finally show ?thesis .
  qed
  have "n_atoms (traj g') = n_atoms (traj g)"
    "length (trajectory (traj g')) = length (trajectory (traj g))"
    by (simp_all add: g'_def)
  with r fr show ?thesis by blast
qed

text \<open>
  Smoothing leaves every attribute but the trajectory as it was, and raises nothing when
  the time series has the atoms first.
\<close>

lemma smooth_trajectory_keeps:
  assumes "smooth_trajectory mean g = Inr g'"
  shows "image_folder g' = image_folder g" and "views g' = views g"
    and "num_views g' = num_views g" and "events g' = events g"
  using assms
  by (auto simp: smooth_trajectory_def split: sum.splits if_splits)

lemma smooth_trajectory_atoms_first_returns:
  assumes "ts_order (traj g) = AtomsFirst"
  shows "\<exists>g'. smooth_trajectory mean g = Inr g'"
  using smooth_trajectory_atoms_first[OF assms, of mean] by blast

lemma window_first:
  assumes "1 < w" and "w div 2 < int T"
  shows "window w T 0 = (0, nat (w div 2) + 1)"
  using assms by (simp add: window_def)

lemma window_last:
  assumes "1 < w" and "w div 2 < int T"
  shows "window w T (T - 1) = (T - 1 - nat (w div 2), T)"
  using assms by (auto simp: window_def min_def max_def)

lemma window_interior:
  assumes "1 < w" and "w div 2 \<le> int i" and "int i < int T - 1 - w div 2"
  shows "window w T i = (i - nat (w div 2), i + nat (w div 2) + 1)"
    and "(i + nat (w div 2) + 1) - (i - nat (w div 2)) = (if odd w then nat w else nat w + 1)"
proof -
  show "window w T i = (i - nat (w div 2), i + nat (w div 2) + 1)"
    using assms by (auto simp: window_def min_def max_def)
  define h where "h = nat (w div 2)"
  have hw: "int h = w div 2" using assms(1) by (simp add: h_def)
  have hi: "h \<le> i" using assms(2) hw by linarith
  have lhs: "(i + h + 1) - (i - h) = 2 * h + 1" using hi by simp
  have "w = 2 * (w div 2) + (if odd w then 1 else 0)"
    by presburger
  then have "w = int (2 * h + (if odd w then 1 else 0))"
    using hw by (simp split: if_splits)
  then have "nat w = 2 * h + (if odd w then 1 else 0)"
    by linarith
  with lhs show "(i + nat (w div 2) + 1) - (i - nat (w div 2)) = (if odd w then nat w else nat w + 1)"
    unfolding h_def[symmetric] by (simp split: if_splits)
qed


text \<open>
  With the frames first and fewer frames than atoms, the loop of \<open>get_smooth_positions\<close>
  stays within the atom axis, and the first assignment of \<open>smooth_trajectory\<close> raises
  \<open>ValueError\<close>: the column has a row per frame, not per atom.
\<close>

lemma frames_first_fewer_frames:
  "smooth_trajectory avg
     (new_generator \<lparr>n_atoms = 3, trajectory = [[0, 1, 2], [3, 4, 5]],
                     in_memory = False, ts_order = FramesFirst\<rparr>
        ''out'' [0] 3 1 (None :: string list option) None) = Inl ValueError"
  by code_simp

text \<open>
  Claim C2 fails in three ways.  Where the trajectory is shorter than half the window (the
  example trajectory of four frames in memory, window 10), frame 0 is written the mean
  over all four frames; its window is not the six frames \<open>0, \<dots>, 10 div 2\<close>, and the
  window of the last frame does not begin at \<open>T - 1 - 10 div 2\<close>.  Where the frames are read
  from a file (window 3), the assignments are lost and every frame is what it was; frame 0
  is not the mean over its window.  Where the time series has the frames first, the loop
  of \<open>get_smooth_positions\<close> indexes the atoms with the frame index and raises
  \<open>IndexError\<close> at the third of four frames of two atoms.
\<close>

theorem smoothing_not_for_every_trajectory:
  "1 < smoothing_window (demo_unsmoothed 10) \<and>
   length (trajectory (traj (demo_unsmoothed 10))) = 4 \<and>
   smoothed_frames (smooth_trajectory avg (demo_unsmoothed 10)) =
     Some [[9 / 2, 20], [9 / 2, 20], [9 / 2, 20], [9 / 2, 20]] \<and>
   mean_over_frames avg demo_traj 0 4 = [9 / 2, 20] \<and>
   window 10 4 0 = (0, 4) \<and>
   window 10 4 0 \<noteq> (0, nat (10 div 2) + 1) \<and>
   window 10 4 3 = (0, 4) \<and>
   int (fst (window 10 4 3)) \<noteq> int 4 - 1 - 10 div 2 \<and>
   smoothed_frames (smooth_trajectory avg (demo_file_backed 3)) =
     Some [[0, 10], [6, 40], [3, 10], [9, 20]] \<and>
   window 3 4 0 = (0, 2) \<and>
   mean_over_frames avg (traj (demo_file_backed 3)) 0 2 = [3, 25] \<and>
   smooth_trajectory avg (demo_frames_first 3) = Inl IndexError"
proof -
  have w: "window 10 4 0 = (0, 4)" "window 10 4 3 = (0, 4)" "window 3 4 0 = (0, 2)"
    by (simp_all add: window_def)
  have a: "smoothed_frames (smooth_trajectory avg (demo_unsmoothed 10)) =
     Some [[9 / 2, 20], [9 / 2, 20], [9 / 2, 20], [9 / 2, 20]]"
    by code_simp
  have b: "mean_over_frames avg demo_traj 0 4 = [9 / 2, 20]"
    by code_simp
  have c: "smoothed_frames (smooth_trajectory avg (demo_file_backed 3)) =
     Some [[0, 10], [6, 40], [3, 10], [9, 20]]"
    by code_simp
  have d: "mean_over_frames avg (traj (demo_file_backed 3)) 0 2 = [3, 25]"
    by code_simp
  have e: "smooth_trajectory avg (demo_frames_first 3) = Inl IndexError"
    by code_simp
  have f: "1 < smoothing_window (demo_unsmoothed 10)"
    "length (trajectory (traj (demo_unsmoothed 10))) = 4"
    by (simp_all add: demo_unsmoothed_def new_generator_def demo_traj_def)
  show ?thesis
    using w a b c d e f by simp
qed

text \<open>
  Claim C2 as amended.  Let the trajectory be in memory, with the atoms first in its time
  series, of \<open>T\<close> frames, and let the window be \<open>w > 1\<close>.  Smoothing returns, keeps the
  number of frames and writes into every frame \<open>i\<close> the mean of the position arrays over
  the frames from \<open>max(0, i - w div 2)\<close> up to, not including, \<open>min(T, i + w div 2 + 1)\<close>.
  When \<open>w div 2 < T\<close>, frame 0 gets the mean over the frames \<open>0, \<dots>, w div 2\<close> and the
  last frame the mean over the frames \<open>T - 1 - w div 2, \<dots>, T - 1\<close>.  A frame \<open>i\<close> with
  \<open>w div 2 \<le> i < T - 1 - w div 2\<close> gets the mean over the frames
  \<open>i - w div 2, \<dots>, i + w div 2\<close>, which are \<open>w\<close> frames when \<open>w\<close> is odd and \<open>w + 1\<close> when
  it is even.
\<close>

theorem smooth_trajectory_window_means:
  assumes "1 < w" and "w = smoothing_window g" and "T = length (trajectory (traj g))"
    and "i < T" and "in_memory (traj g)" and "ts_order (traj g) = AtomsFirst"
  shows "\<exists>g'. smooth_trajectory mean g = Inr g' \<and>
         length (trajectory (traj g')) = T \<and>
         trajectory (traj g') ! i =
           mean_over_frames mean (traj g)
             (nat (max 0 (int i - w div 2))) (nat (min (int T) (int i + w div 2 + 1))) \<and>
         (w div 2 < int T \<longrightarrow>
            trajectory (traj g') ! 0 =
              mean_over_frames mean (traj g) 0 (nat (w div 2) + 1) \<and>
            trajectory (traj g') ! (T - 1) =
              mean_over_frames mean (traj g) (T - 1 - nat (w div 2)) T) \<and>
         (w div 2 \<le> int i \<and> int i < int T - 1 - w div 2 \<longrightarrow>
            trajectory (traj g') ! i =
              mean_over_frames mean (traj g) (i - nat (w div 2)) (i + nat (w div 2) + 1) \<and>
            (i + nat (w div 2) + 1) - (i - nat (w div 2)) = (if odd w then nat w else nat w + 1))"
proof -
  from smooth_trajectory_frames[OF assms(6,5), of mean] obtain g' where
    r: "smooth_trajectory mean g = Inr g'" and
    len: "length (trajectory (traj g')) = T" and
    fr: "\<And>j. j < T \<Longrightarrow> trajectory (traj g') ! j =
            mean_over_frames mean (traj g) (fst (window w T j)) (snd (window w T j))"
    unfolding assms(2,3) by blast
  have gen: "trajectory (traj g') ! i =
           mean_over_frames mean (traj g)
             (nat (max 0 (int i - w div 2))) (nat (min (int T) (int i + w div 2 + 1)))"
    using fr[OF assms(4)] by (simp add: window_def)
  have T0: "0 < T" using assms(4) by simp
  have first: "trajectory (traj g') ! 0 =
              mean_over_frames mean (traj g) 0 (nat (w div 2) + 1)"
    if "w div 2 < int T"
    using fr[OF T0] window_first[OF assms(1) that] by simp
  have last: "trajectory (traj g') ! (T - 1) =
              mean_over_frames mean (traj g) (T - 1 - nat (w div 2)) T"
    if "w div 2 < int T"
    using fr[of "T - 1"] T0 window_last[OF assms(1) that] by simp
  have mid: "trajectory (traj g') ! i =
              mean_over_frames mean (traj g) (i - nat (w div 2)) (i + nat (w div 2) + 1) \<and>
            (i + nat (w div 2) + 1) - (i - nat (w div 2)) = (if odd w then nat w else nat w + 1)"
    if "w div 2 \<le> int i" "int i < int T - 1 - w div 2"
    using fr[OF assms(4)] window_interior[OF assms(1) that] by simp
  from r len gen first last mid show ?thesis by blast
qed

theorem smooth_trajectory_window_means_witness:
  "(1::int) < 3 \<and> 3 = smoothing_window (demo_unsmoothed 3) \<and>
   4 = length (trajectory (traj (demo_unsmoothed 3))) \<and> (1::nat) < 4 \<and>
   in_memory (traj (demo_unsmoothed 3)) \<and> ts_order (traj (demo_unsmoothed 3)) = AtomsFirst \<and>
   (3::int) div 2 < int 4 \<and> 3 div 2 \<le> int 1 \<and> int 1 < int 4 - 1 - 3 div 2 \<and>
   smoothed_frames (smooth_trajectory avg (demo_unsmoothed 3)) =
     Some [[3, 25], [3, 20], [6, 70 / 3], [6, 15]] \<and>
   mean_over_frames avg (traj (demo_unsmoothed 3)) 0 2 = [3, 25] \<and>
   mean_over_frames avg (traj (demo_unsmoothed 3)) 0 3 = [3, 20] \<and>
   mean_over_frames avg (traj (demo_unsmoothed 3)) 2 4 = [6, 15]"
proof -
  have h: "(1::int) < 3" "3 = smoothing_window (demo_unsmoothed 3)"
    "4 = length (trajectory (traj (demo_unsmoothed 3)))" "(1::nat) < 4"
    "in_memory (traj (demo_unsmoothed 3))" "ts_order (traj (demo_unsmoothed 3)) = AtomsFirst"
    by (simp_all add: demo_unsmoothed_def new_generator_def demo_traj_def)
  have c: "(3::int) div 2 < int 4" "3 div 2 \<le> int 1" "int 1 < int 4 - 1 - 3 div 2"
    by simp_all
  have v: "smoothed_frames (smooth_trajectory avg (demo_unsmoothed 3)) =
     Some [[3, 25], [3, 20], [6, 70 / 3], [6, 15]]"
    by code_simp
  from smooth_trajectory_window_means[OF h, of avg] c obtain g' where
    r: "smooth_trajectory avg (demo_unsmoothed 3) = Inr g'" and
    e: "trajectory (traj g') ! 0 =
          mean_over_frames avg (traj (demo_unsmoothed 3)) 0 (nat (3 div 2) + 1)"
       "trajectory (traj g') ! (4 - 1) =
          mean_over_frames avg (traj (demo_unsmoothed 3)) (4 - 1 - nat (3 div 2)) 4"
       "trajectory (traj g') ! 1 =
          mean_over_frames avg (traj (demo_unsmoothed 3)) (1 - nat (3 div 2)) (1 + nat (3 div 2) + 1)"
    by blast
  have t: "trajectory (traj g') = [[3, 25], [3, 20], [6, 70 / 3], [6, 15]]"
    using v r by (simp add: smoothed_frames_def)
  have n: "nat (3 div 2) + 1 = (2::nat)" "4 - 1 - nat (3 div 2) = (2::nat)"
    "1 - nat (3 div 2) = (0::nat)" "1 + nat (3 div 2) + 1 = (3::nat)"
    by simp_all
  from e have "[[3, 25], [3, 20], [6, 70 / 3], [6, 15]] ! 0 =
          mean_over_frames avg (traj (demo_unsmoothed 3)) 0 2 \<and>
        [[3, 25], [3, 20], [6, 70 / 3], [6, 15]] ! (4 - 1) =
          mean_over_frames avg (traj (demo_unsmoothed 3)) 2 4 \<and>
        [[3, 25], [3, 20], [6, 70 / 3], [6, 15::rat]] ! 1 =
          mean_over_frames avg (traj (demo_unsmoothed 3)) 0 3"
    unfolding t n by simp
  then have "mean_over_frames avg (traj (demo_unsmoothed 3)) 0 2 = [3, 25] \<and>
     mean_over_frames avg (traj (demo_unsmoothed 3)) 2 4 = [6, 15] \<and>
     mean_over_frames avg (traj (demo_unsmoothed 3)) 0 3 = [3, 20]"
    by simp
  with h c v show ?thesis by simp
qed

section \<open>What construction does\<close>

lemma makedirs_count_append [simp]:
  "makedirs_count (xs @ ys) = makedirs_count xs + makedirs_count ys"
  by (simp add: makedirs_count_def)

lemma create_views_fold_keeps:
  "traj (fold create_view xs s) = traj s \<and>
   (\<exists>tl. events (fold create_view xs s) = events s @ tl \<and> makedirs_count tl = 0)"
proof (induction xs arbitrary: s)
  case Nil
  then show ?case by (simp add: makedirs_count_def)
next
  case (Cons x xs)
  from Cons[of "create_view x s"] obtain tl where
    t: "traj (fold create_view xs (create_view x s)) = traj (create_view x s)"
    and e: "events (fold create_view xs (create_view x s)) = events (create_view x s) @ tl"
    and m: "makedirs_count tl = 0"
    by blast
  have "makedirs_count ([ShowView x, Display x] @ tl) = 0"
    using m by (simp add: makedirs_count_def)
  moreover have "events (create_view x s) @ tl = events s @ ([ShowView x, Display x] @ tl)"
    by (simp add: create_view_def)
  moreover have "traj (create_view x s) = traj s"
    by (simp add: create_view_def)
  ultimately show ?case
    using t e by (metis fold_simps(2))
qed

lemma create_views_traj: "traj (create_views s) = traj s"
  by (simp add: create_views_def create_views_fold_keeps)

lemma create_views_events:
  "\<exists>tl. events (create_views s) = events s @ tl \<and> makedirs_count tl = 0"
  unfolding create_views_def by (rule create_views_fold_keeps[THEN conjunct2])

lemma create_views_none:
  "num_views s \<le> 0 \<Longrightarrow> create_views s = s"
  by (simp add: create_views_def)

lemma demo_init_noviews:
  "init (\<lambda>_. True) avg demo_traj ''out'' [0, 2, 4, 6, 8, 10] 1 0 None None = Inr demo_noviews"
  by code_simp

lemma demo_noviews_run: "run demo_noviews = Inl ValueError"
  by code_simp

lemma create_view_fold_length:
  "length (views (fold create_view xs s)) = length (views s) + length xs"
  by (induction xs arbitrary: s) (simp_all add: create_view_def)

text \<open>The constructor creates as many views as \<open>num_views\<close> asks for.\<close>

text \<open>
  A construction that returns has passed the smoothing step, has created the folder and
  then the views.
\<close>

lemma init_returns:
  assumes "init mk mean U folder ixs w nv ra sel = Inr g"
  shows "\<exists>g1. g = create_views (g1\<lparr>events := [MakeDirs folder]\<rparr>) \<and>
              views g1 = [] \<and> num_views g1 = nv \<and> mk folder"
proof -
  define g0 :: "('a, 'b) generator" where "g0 = new_generator U folder ixs w nv ra sel"
  have f0: "image_folder g0 = folder" "views g0 = []" "num_views g0 = nv" "events g0 = []"
    "smoothing_window g0 = w"
    by (simp_all add: g0_def new_generator_def)
  from assms obtain g1 where
    g1: "(if 1 < w then smooth_trajectory mean g0 else Inr g0) = Inr g1" and
    r: "(if \<not> mk (image_folder g1) then Inl OSError
         else Inr (create_views (g1\<lparr>events := events g1 @ [MakeDirs (image_folder g1)]\<rparr>))) = Inr g"
    unfolding init_def Let_def g0_def[symmetric] f0
    by (cases "if 1 < w then smooth_trajectory mean g0 else Inr g0") simp_all
  have k: "image_folder g1 = folder" "views g1 = []" "num_views g1 = nv" "events g1 = []"
    using g1 f0 smooth_trajectory_keeps[of mean g0 g1] by (auto split: if_splits)
  from r k have "mk folder" "g = create_views (g1\<lparr>events := [MakeDirs folder]\<rparr>)"
    by (auto split: if_splits)
  with k show ?thesis by blast
qed

text \<open>The constructor creates as many views as \<open>num_views\<close> asks for.\<close>

lemma init_views_length:
  assumes "init mk mean U folder ixs w nv ra sel = Inr g"
  shows "length (views g) = nat nv"
proof -
  from init_returns[OF assms] obtain g1 where
    g: "g = create_views (g1\<lparr>events := [MakeDirs folder]\<rparr>)" and k: "views g1 = []" "num_views g1 = nv"
    by blast
  show ?thesis
    by (simp add: g create_views_def create_view_fold_length k)
qed

text \<open>
  Claim C7.  With a smoothing window of at most 1, construction fails only when the
  folder cannot be created, and the generator it returns otherwise holds the trajectory
  it was given, positions unchanged.
\<close>

theorem init_window_le_1:
  assumes "w \<le> 1"
  shows "(mk folder \<longrightarrow> (\<exists>g. init mk mean U folder ixs w nv ra sel = Inr g \<and> traj g = U)) \<and>
         (\<not> mk folder \<longrightarrow> init mk mean U folder ixs w nv ra sel = Inl OSError)"
  using assms by (simp add: init_def Let_def new_generator_def create_views_traj)

theorem init_window_le_1_witness:
  "(1::int) \<le> 1 \<and>
   init (\<lambda>_. True) avg demo_traj ''out'' [0, 2, 4, 6, 8, 10] 1 3 None None = Inr demo_gen \<and>
   traj demo_gen = demo_traj"
proof -
  have h: "(1::int) \<le> 1" by simp
  have t: "traj demo_gen = demo_traj" by (simp add: demo_gen_def)
  from init_window_le_1[OF h, of "\<lambda>_. True" "''out''" avg demo_traj "[0, 2, 4, 6, 8, 10]" 3 None None]
  have "\<exists>g. init (\<lambda>_. True) avg demo_traj ''out'' [0, 2, 4, 6, 8, 10] 1 3
              (None :: string list option) None = Inr g \<and> traj g = demo_traj"
    by simp
  then show ?thesis using t by (simp add: demo_init)
qed


text \<open>
  Claim C8 fails: construction with \<open>num_views = 0\<close> returns a generator, and only \<open>run\<close>
  raises, with the \<open>ValueError\<close> of \<open>array_split\<close>.
\<close>

theorem zero_views_constructs:
  "init (\<lambda>_. True) avg demo_traj ''out'' [0, 2, 4, 6, 8, 10] 1 0 None None = Inr demo_noviews \<and>
   run demo_noviews = Inl ValueError"
  by (simp add: demo_init_noviews demo_noviews_run)

text \<open>
  Claim C8 as amended.  With \<open>num_views = 0\<close>, construction raises nothing on account of
  the views.  Where the folder can be created, it returns a generator without views, on
  which \<open>run\<close> raises \<open>ValueError\<close>, or it raises what the smoothing step has raised;
  and it does return when the window is at most 1 or the time series of the trajectory
  has the atoms first, as then the smoothing step raises nothing.
\<close>

theorem zero_views_error_at_run:
  assumes "nv = 0" and "mk folder"
  shows "((w \<le> 1 \<or> ts_order U = AtomsFirst) \<longrightarrow>
            (\<exists>g. init mk mean U folder ixs w nv ra sel = Inr g \<and> views g = [] \<and>
                  run g = Inl ValueError)) \<and>
         ((\<exists>g. init mk mean U folder ixs w nv ra sel = Inr g \<and> views g = [] \<and>
                run g = Inl ValueError) \<or>
          (1 < w \<and>
           (\<exists>e. smooth_trajectory mean (new_generator U folder ixs w nv ra sel) = Inl e \<and>
                 init mk mean U folder ixs w nv ra sel = Inl e)))"
proof -
  define g0 :: "('a, 'b) generator" where "g0 = new_generator U folder ixs w nv ra sel"
  have f0: "image_folder g0 = folder" "views g0 = []" "num_views g0 = nv" "events g0 = []"
    "smoothing_window g0 = w" "traj g0 = U"
    by (simp_all add: g0_def new_generator_def)
  have ok: "\<exists>g. init mk mean U folder ixs w nv ra sel = Inr g \<and> views g = [] \<and>
                  run g = Inl ValueError"
    if g1: "(if 1 < w then smooth_trajectory mean g0 else Inr g0) = Inr g1" for g1
  proof -
    have k: "image_folder g1 = folder" "views g1 = []" "num_views g1 = 0" "events g1 = []"
      using g1 f0 assms(1) smooth_trajectory_keeps[of mean g0 g1] by (auto split: if_splits)
    define g where "g = g1\<lparr>events := events g1 @ [MakeDirs (image_folder g1)]\<rparr>"
    have i: "init mk mean U folder ixs w nv ra sel = Inr (create_views g)"
      using assms(2) k(1) g1 unfolding init_def Let_def g0_def[symmetric] f0 g_def
      by simp
    have c: "create_views g = g"
      by (rule create_views_none) (simp add: g_def k)
    have v: "views g = []" by (simp add: g_def k)
    have "run g = Inl ValueError"
      by (simp add: run_def array_split_def v)
    with i c v show ?thesis by simp
  qed
  have ret: "\<exists>g1. (if 1 < w then smooth_trajectory mean g0 else Inr g0) = Inr g1"
    if "w \<le> 1 \<or> ts_order U = AtomsFirst"
    using that smooth_trajectory_atoms_first_returns[of g0 mean] f0(6) by auto
  have fail: "1 < w \<and> smooth_trajectory mean g0 = Inl e \<and>
              init mk mean U folder ixs w nv ra sel = Inl e"
    if "(if 1 < w then smooth_trajectory mean g0 else Inr g0) = Inl e" for e
    using that unfolding init_def Let_def g0_def[symmetric] f0
    by (auto split: if_splits)
  have "(\<exists>g1. (if 1 < w then smooth_trajectory mean g0 else Inr g0) = Inr g1) \<or>
        (\<exists>e. (if 1 < w then smooth_trajectory mean g0 else Inr g0) = Inl e)"
    by (cases "if 1 < w then smooth_trajectory mean g0 else Inr g0") auto
  with ok ret fail show ?thesis
    unfolding g0_def by blast
qed

theorem zero_views_error_at_run_witness:
  "(0::int) = 0 \<and> (\<lambda>_. True) ''out'' \<and> ts_order demo_traj = AtomsFirst \<and>
   init (\<lambda>_. True) avg demo_traj ''out'' [0, 2, 4, 6, 8, 10] 1 0 None None = Inr demo_noviews \<and>
   views demo_noviews = [] \<and> run demo_noviews = Inl ValueError"
proof -
  have h1: "(0::int) = 0" by simp
  have h2: "(\<lambda>_. True) ''out''" by simp
  have h3: "ts_order demo_traj = AtomsFirst" by (simp add: demo_traj_def)
  from zero_views_error_at_run[of 0 "\<lambda>_. True" "''out''" 1 demo_traj avg "[0, 2, 4, 6, 8, 10]"
      "None :: string list option" None, OF h1 h2] h3
  have "\<exists>g. init (\<lambda>_. True) avg demo_traj ''out'' [0, 2, 4, 6, 8, 10] 1 0
               (None :: string list option) None = Inr g \<and> views g = [] \<and>
             run g = Inl ValueError"
    by blast
  then have "views demo_noviews = [] \<and> run demo_noviews = Inl ValueError"
    by (simp add: demo_init_noviews)
  with h3 show ?thesis by (simp add: demo_init_noviews)
qed


lemma fold_start_thread_events:
  "\<exists>tl. events (fold start_thread vbs s) = events s @ tl \<and> makedirs_count tl = 0"
proof (induction vbs arbitrary: s)
  case Nil
  then show ?case by (simp add: makedirs_count_def)
next
  case (Cons vb vbs)
  from Cons[of "start_thread vb s"] obtain tl where
    e: "events (fold start_thread vbs (start_thread vb s)) = events (start_thread vb s) @ tl"
    and m: "makedirs_count tl = 0"
    by blast
  have "events (start_thread vb s) @ tl = events s @ (ThreadStart (Suc (length (threads s))) # tl)"
    by (simp add: start_thread_def Let_def)
  moreover have "makedirs_count (ThreadStart (Suc (length (threads s))) # tl) = 0"
    using m by (simp add: makedirs_count_def)
  ultimately show ?case using e by (metis fold_simps(2))
qed

lemma run_events:
  assumes "run s = Inr s'"
  shows "\<exists>tl. events s' = events s @ tl \<and> makedirs_count tl = 0"
proof -
  obtain bs where bs: "array_split (indices s) (int (length (views s))) = Inr bs"
    using assms by (cases "array_split (indices s) (int (length (views s)))") (simp_all add: run_def)
  define s1 where "s1 = s\<lparr>progress_bar :=
                            Some \<lparr>pb_total = length (indices s), pb_n = 0, pb_disable = False\<rparr>,
                          events := events s @ [ProgressOpen (length (indices s))]\<rparr>"
  have s': "s' = fold start_thread (zip [0..<length (views s)] bs) s1"
    using assms by (simp add: run_def bs s1_def)
  from fold_start_thread_events[of "zip [0..<length (views s)] bs" s1] obtain tl where
    e: "events s' = events s1 @ tl" and m: "makedirs_count tl = 0"
    unfolding s' by blast
  have "events s' = events s @ (ProgressOpen (length (indices s)) # tl)"
    by (simp add: e s1_def)
  moreover have "makedirs_count (ProgressOpen (length (indices s)) # tl) = 0"
    using m by (simp add: makedirs_count_def)
  ultimately show ?thesis by blast
qed

lemma generate_image_events:
  assumes "generate_image s v i = Inr s'"
  shows "events s' = events s @ [SaveImage (frame_path (image_folder s) i), ProgressUpdate]"
  using assms by (auto simp: generate_image_def Let_def split: option.splits)

lemma worker_step_makedirs:
  assumes "worker_step s s'"
  shows "makedirs_count (events s') = makedirs_count (events s)"
  using assms
proof (cases rule: worker_step.cases)
  case (frame_done k i rest s'')
  then show ?thesis by (simp add: generate_image_events makedirs_count_def)
next
  case (bucket_done k)
  then show ?thesis by simp
next
  case (worker_died k i rest)
  then show ?thesis by simp
qed

lemma reachable_makedirs:
  assumes "worker_step\<^sup>*\<^sup>* s1 s"
  shows "makedirs_count (events s) = makedirs_count (events s1)"
  using assms by (induction rule: rtranclp_induct) (simp_all add: worker_step_makedirs)

lemma init_events:
  assumes "init mk mean U folder ixs w nv ra sel = Inr g"
  shows "\<exists>tl. events g = MakeDirs folder # tl \<and> makedirs_count tl = 0"
proof -
  from init_returns[OF assms] obtain g1 where
    g: "g = create_views (g1\<lparr>events := [MakeDirs folder]\<rparr>)"
    by blast
  from create_views_events[of "g1\<lparr>events := [MakeDirs folder]\<rparr>"] obtain tl where
    "events g = events (g1\<lparr>events := [MakeDirs folder]\<rparr>) @ tl" "makedirs_count tl = 0"
    unfolding g by blast
  then show ?thesis by simp
qed

text \<open>
  Claim C9 fails: in the example, the one directory creation is among the events of
  construction, and \<open>run\<close> adds none.
\<close>

theorem makedirs_not_at_dispatch:
  "init (\<lambda>_. True) avg demo_traj ''out'' [0, 2, 4, 6, 8, 10] 1 3 None None = Inr demo_gen \<and>
   makedirs_count (events demo_gen) = 1 \<and>
   makedirs_count (dispatch_events demo_gen) = 0"
proof -
  have "makedirs_count (events demo_gen) = 1"
    by (simp add: demo_gen_def makedirs_count_def)
  moreover have "makedirs_count (dispatch_events demo_gen) = 0"
    by (simp add: dispatch_events_def demo_run demo_running_def makedirs_count_def)
  ultimately show ?thesis by (simp add: demo_init)
qed

text \<open>
  Claim C9 as amended.  The folder is created exactly once, by the constructor and as its
  first effect; \<open>run\<close> creates no directory, and neither does any step of a worker, so
  that there is still exactly one creation in every state reached after dispatch.
\<close>

theorem makedirs_once_at_construction:
  assumes "init mk mean U folder ixs w nv ra sel = Inr g"
    and "run g = Inr s1"
    and "worker_step\<^sup>*\<^sup>* s1 s"
  shows "(\<exists>tl. events g = MakeDirs folder # tl \<and> makedirs_count tl = 0) \<and>
         makedirs_count (events g) = 1 \<and>
         makedirs_count (dispatch_events g) = 0 \<and>
         makedirs_count (events s) = 1"
proof -
  from init_events[OF assms(1)] obtain tl where
    tl: "events g = MakeDirs folder # tl" "makedirs_count tl = 0"
    by blast
  have one: "makedirs_count (events g) = 1"
    using tl by (simp add: makedirs_count_def)
  from run_events[OF assms(2)] obtain tl' where
    tl': "events s1 = events g @ tl'" "makedirs_count tl' = 0"
    by blast
  have d: "makedirs_count (dispatch_events g) = 0"
    by (simp add: dispatch_events_def assms(2) tl')
  have "makedirs_count (events s) = 1"
    using reachable_makedirs[OF assms(3)] one tl' by simp
  with tl one d show ?thesis by blast
qed

theorem makedirs_once_at_construction_witness:
  "init (\<lambda>_. True) avg demo_traj ''out'' [0, 2, 4, 6, 8, 10] 1 3 None None = Inr demo_gen \<and>
   run demo_gen = Inr demo_running \<and>
   worker_step\<^sup>*\<^sup>* demo_running demo_done \<and>
   hd (events demo_gen) = MakeDirs ''out'' \<and>
   makedirs_count (events demo_done) = 1"
proof -
  have h3: "worker_step\<^sup>*\<^sup>* demo_running demo_done"
    by (rule schedule_reachable[OF demo_schedule])
  from makedirs_once_at_construction[OF demo_init demo_run h3]
  have "makedirs_count (events demo_done) = 1" by simp
  moreover have "hd (events demo_gen) = MakeDirs ''out''" by (simp add: demo_gen_def)
  ultimately show ?thesis using h3 by (simp add: demo_init demo_run)
qed

section \<open>Frame files\<close>

lemma digit_value_digit_char: "d < 10 \<Longrightarrow> digit_value (digit_char d) = d"
  by (simp add: digit_value_def digit_char_def)

lemma is_digit_digit_char: "d < 10 \<Longrightarrow> is_digit (digit_char d)"
  by (simp add: is_digit_def digit_char_def)

lemma decimal_value_snoc:
  "decimal_value (s @ [c]) = 10 * decimal_value s + digit_value c"
  by (simp add: decimal_value_def)

lemma decimal_value_digits: "decimal_value (digits k) = k"
proof (induction k rule: digits.induct)
  case (1 k)
  show ?case
  proof (cases "k < 10")
    case True
    then show ?thesis
      by (subst digits.simps) (simp add: decimal_value_def digit_value_digit_char)
  next
    case False
    have "decimal_value (digits k) = 10 * decimal_value (digits (k div 10)) + digit_value (digit_char (k mod 10))"
      using False by (subst digits.simps) (simp add: decimal_value_snoc)
    also have "\<dots> = 10 * (k div 10) + k mod 10"
      using 1[OF False] by (simp add: digit_value_digit_char)
    finally show ?thesis by simp
  qed
qed

lemma is_digit_digits: "list_all is_digit (digits k)"
proof (induction k rule: digits.induct)
  case (1 k)
  show ?case
  proof (cases "k < 10")
    case True
    then show ?thesis by (subst digits.simps) (simp add: is_digit_digit_char)
  next
    case False
    then show ?thesis using 1[OF False] by (subst digits.simps) (simp add: is_digit_digit_char)
  qed
qed

lemma length_digits_le: "0 < m \<Longrightarrow> k < 10 ^ m \<Longrightarrow> length (digits k) \<le> m"
proof (induction k arbitrary: m rule: digits.induct)
  case (1 k)
  show ?case
  proof (cases "k < 10")
    case True
    then show ?thesis using 1(2) by (subst digits.simps) simp
  next
    case False
    obtain m' where m: "m = Suc m'" using 1(2) by (cases m) auto
    have "m' \<noteq> 0" using False 1(3) m by (cases m') auto
    moreover have "k div 10 < 10 ^ m'" using 1(3) m by (simp add: less_mult_imp_div_less mult.commute)
    ultimately have "length (digits (k div 10)) \<le> m'" using 1(1)[OF False, of m'] by simp
    then show ?thesis using False m by (subst digits.simps) simp
  qed
qed

lemma decimal_value_zeros: "decimal_value (replicate m CHR ''0'' @ s) = decimal_value s"
proof -
  have "foldl (\<lambda>acc c. 10 * acc + digit_value c) 0 (replicate m CHR ''0'') = 0"
    by (induction m) (simp_all add: digit_value_def)
  then show ?thesis by (simp add: decimal_value_def)
qed

lemma is_digit_zfill: "list_all is_digit s \<Longrightarrow> list_all is_digit (zfill m s)"
  by (auto simp: zfill_def list_all_iff is_digit_def)

lemma fmt_06d_nonneg:
  assumes "0 \<le> i"
  shows "fmt_06d i = replicate (6 - length (digits (nat i))) CHR ''0'' @ digits (nat i)"
    and "decimal_value (fmt_06d i) = nat i"
    and "list_all is_digit (fmt_06d i)"
    and "6 \<le> length (fmt_06d i)"
    and "i < 1000000 \<Longrightarrow> length (fmt_06d i) = 6"
proof -
  show e: "fmt_06d i = replicate (6 - length (digits (nat i))) CHR ''0'' @ digits (nat i)"
    using assms by (simp add: fmt_06d_def zfill_def)
  show "decimal_value (fmt_06d i) = nat i"
    unfolding e by (simp only: decimal_value_zeros decimal_value_digits)
  show "list_all is_digit (fmt_06d i)"
    using assms is_digit_zfill[OF is_digit_digits] by (simp add: fmt_06d_def)
  show "6 \<le> length (fmt_06d i)"
    unfolding e by simp
  show "length (fmt_06d i) = 6" if "i < 1000000"
  proof -
    have "nat i < 10 ^ 6" using that assms by simp
    then have "length (digits (nat i)) \<le> 6" by (intro length_digits_le) simp_all
    then show ?thesis unfolding e by simp
  qed
qed

lemma frame_path_plain:
  assumes "folder \<noteq> []" and "last folder \<noteq> CHR ''/''"
  shows "frame_path folder i = folder @ ''/frame_'' @ fmt_06d i @ ''.png''"
  using assms by (simp add: frame_path_def os_path_join_def)


text \<open>
  Claim C6.  The path of a frame is \<open>frame_path\<close> of the folder and the index: for a
  folder name that is not empty and does not end with the separator it is the folder,
  \<open>/frame_\<close>, the formatted index and \<open>.png\<close>; a non-negative index is formatted as its
  decimal digits padded with zeros on the left to six characters (exactly six below one
  million) and reads back as the index.  \<open>generate_images\<close> saves frame \<open>i\<close> under this
  path.  \<open>make_movie\<close> hands the encoder the paths of \<open>self.indices\<close> in the order of
  that list; the list depends on the folder name and the indices alone, on no other
  part of the state and on no listing of the folder.
\<close>

theorem frame_files:
  "(folder \<noteq> [] \<and> last folder \<noteq> CHR ''/'' \<longrightarrow>
      frame_path folder i = folder @ ''/frame_'' @ fmt_06d i @ ''.png'') \<and>
   (0 \<le> i \<longrightarrow>
      fmt_06d i = replicate (6 - length (digits (nat i))) CHR ''0'' @ digits (nat i) \<and>
      list_all is_digit (fmt_06d i) \<and> decimal_value (fmt_06d i) = nat i) \<and>
   (0 \<le> i \<and> i < 1000000 \<longrightarrow> length (fmt_06d i) = 6) \<and>
   (\<forall>s'. generate_image s v i = Inr s' \<longrightarrow>
      events s' = events s @ [SaveImage (frame_path (image_folder s) i), ProgressUpdate]) \<and>
   make_movie s output_file fps =
     s\<lparr>events := events s @
        [WriteVideo (map (frame_path (image_folder s)) (indices s)) fps output_file ''libx264'']\<rparr> \<and>
   (image_folder s2 = image_folder s \<and> indices s2 = indices s \<longrightarrow> image_files s2 = image_files s)"
proof -
  have a: "folder \<noteq> [] \<and> last folder \<noteq> CHR ''/'' \<longrightarrow>
      frame_path folder i = folder @ ''/frame_'' @ fmt_06d i @ ''.png''"
    by (simp add: frame_path_plain)
  have b: "0 \<le> i \<longrightarrow>
      fmt_06d i = replicate (6 - length (digits (nat i))) CHR ''0'' @ digits (nat i) \<and>
      list_all is_digit (fmt_06d i) \<and> decimal_value (fmt_06d i) = nat i"
    using fmt_06d_nonneg(1,2,3)[of i] by blast
  have c: "0 \<le> i \<and> i < 1000000 \<longrightarrow> length (fmt_06d i) = 6"
    using fmt_06d_nonneg(5)[of i] by blast
  have d: "\<forall>s'. generate_image s v i = Inr s' \<longrightarrow>
      events s' = events s @ [SaveImage (frame_path (image_folder s) i), ProgressUpdate]"
    using generate_image_events by blast
  have e: "make_movie s output_file fps =
     s\<lparr>events := events s @
        [WriteVideo (map (frame_path (image_folder s)) (indices s)) fps output_file ''libx264'']\<rparr>"
    by (simp add: make_movie_def image_files_def)
  have f: "image_folder s2 = image_folder s \<and> indices s2 = indices s \<longrightarrow> image_files s2 = image_files s"
    by (simp add: image_files_def)
  from a b c d e f show ?thesis by blast
qed

theorem frame_files_witness:
  "''out'' \<noteq> [] \<and> last ''out'' \<noteq> CHR ''/'' \<and> (0::int) \<le> 10 \<and> (10::int) < 1000000 \<and>
   frame_path ''out'' 10 = ''out/frame_'' @ fmt_06d 10 @ ''.png'' \<and>
   length (fmt_06d 10) = 6 \<and> decimal_value (fmt_06d 10) = 10 \<and>
   fmt_06d 10 = ''000010'' \<and>
   image_folder demo_running = image_folder demo_done \<and> indices demo_running = indices demo_done \<and>
   image_files demo_running = image_files demo_done \<and>
   image_files demo_done =
     [''out/frame_000000.png'', ''out/frame_000002.png'', ''out/frame_000004.png'',
      ''out/frame_000006.png'', ''out/frame_000008.png'', ''out/frame_000010.png'']"
proof -
  have h: "''out'' \<noteq> [] \<and> last ''out'' \<noteq> CHR ''/''" "(0::int) \<le> 10" "(10::int) < 1000000"
    by simp_all
  have g: "image_folder demo_running = image_folder demo_done"
    "indices demo_running = indices demo_done"
    by (simp_all add: demo_done_def)
  have v: "fmt_06d 10 = ''000010''" by code_simp
  have l: "image_files demo_done =
     [''out/frame_000000.png'', ''out/frame_000002.png'', ''out/frame_000004.png'',
      ''out/frame_000006.png'', ''out/frame_000008.png'', ''out/frame_000010.png'']"
    by code_simp
  from frame_files[of "''out''" 10 demo_done 0 "''movie.mp4''" 30 demo_running] h g
  have "frame_path ''out'' 10 = ''out'' @ ''/frame_'' @ fmt_06d 10 @ ''.png'' \<and>
        length (fmt_06d 10) = 6 \<and> decimal_value (fmt_06d 10) = nat 10 \<and>
        image_files demo_running = image_files demo_done"
    by blast
  with h g v l show ?thesis by simp
qed

end
